theory Spec2Isabelle
  imports Complex_Main "HOL-Library.Sublist" "HOL-Library.Multiset"
begin

section \<open>The harness (src/index.ts)\<close>

subsection \<open>JavaScript values and errors\<close>

text \<open>
  The mock is declared with \<open>input: any\<close>, so its argument is an arbitrary JavaScript
  value. The fragment below covers the primitives and plain objects (a property list read
  with \<open>map_of\<close>, so the first binding of a name wins). A thrown exception is the left
  summand of the result; inside an \<open>async\<close> function a throw is a rejected promise.
\<close>

datatype js_value =
    JUndefined
  | JNull
  | JBool bool
  | JNumber int
  | JString string
  | JObject "(string \<times> js_value) list"

datatype js_error =
    TypeError
  | Error string

text \<open>
  \<open>input.url\<close>: reading a property of \<open>undefined\<close> or \<open>null\<close> raises a TypeError; a
  boolean, a number and a string have no property \<open>url\<close>, and a missing property reads
  as \<open>undefined\<close>.
\<close>

fun get_url :: "js_value \<Rightarrow> js_error + js_value" where
  "get_url JUndefined = Inl TypeError"
| "get_url JNull = Inl TypeError"
| "get_url (JObject ps) =
     (case map_of ps ''url'' of None \<Rightarrow> Inr JUndefined | Some v \<Rightarrow> Inr v)"
| "get_url v = Inr JUndefined"

text \<open>\<open>String.prototype.includes\<close>: \<open>sub\<close> occurs in \<open>s\<close> as a contiguous block.\<close>

fun str_includes :: "string \<Rightarrow> string \<Rightarrow> bool" where
  "str_includes [] sub = (sub = [])"
| "str_includes (c # cs) sub = (prefix sub (c # cs) \<or> str_includes cs sub)"

text \<open>
  \<open>url.includes(sub)\<close> on an arbitrary value: only a string has the method in this
  fragment; on \<open>undefined\<close>, \<open>null\<close>, a number, a boolean or a plain object the call
  raises a TypeError.
\<close>

fun call_includes :: "js_value \<Rightarrow> string \<Rightarrow> js_error + bool" where
  "call_includes (JString s) sub = Inr (str_includes s sub)"
| "call_includes v sub = Inl TypeError"

subsection \<open>The fetch mock\<close>

record response =
  status :: nat
  statusText :: string
  headers :: "(string \<times> string) list"
  body :: string

text \<open>
  \<open>JSON.stringify\<close> on the values the mock serialises: objects whose members are
  strings of printable ASCII. A double quote and a backslash are escaped.
\<close>

datatype json =
    JsonString string
  | JsonObject "(string \<times> json) list"

definition json_quote :: "string \<Rightarrow> string" where
  \<open>json_quote s =
     ''"'' @ concat (map (\<lambda>c. if c = CHR 0x22 \<or> c = CHR 0x5C then [CHR 0x5C, c] else [c]) s) @ ''"''\<close>

fun json_join :: "string list \<Rightarrow> string" where
  "json_join [] = []"
| "json_join [m] = m"
| "json_join (m # ms) = m @ '','' @ json_join ms"

fun JSON_stringify :: "json \<Rightarrow> string" where
  "JSON_stringify (JsonString s) = json_quote s"
| "JSON_stringify (JsonObject ms) =
     ''{'' @ json_join (map (\<lambda>(k, v). json_quote k @ '':'' @ JSON_stringify v) ms) @ ''}''"

text \<open>\<open>typeof input === "string" ? input : input.url\<close>\<close>

definition url_of :: "js_value \<Rightarrow> js_error + js_value" where
  "url_of input =
     (case input of JString s \<Rightarrow> Inr (JString s) | _ \<Rightarrow> get_url input)"

text \<open>
  \<open>global.fetch\<close> (lines 19-32). The result is the pair of the lines written with
  \<open>console.log\<close> and the outcome of the returned promise: \<open>Inr\<close> a response, \<open>Inl\<close> the
  exception it rejects with. The template literal in the log line is reached only when
  \<open>url\<close> is a string.
\<close>

definition fetch :: "js_value \<Rightarrow> string list \<times> (js_error + response)" where
  "fetch input =
     (case url_of input of
        Inl e \<Rightarrow> ([], Inl e)
      | Inr url \<Rightarrow>
          (case call_includes url ''api.smith.langchain'' of
             Inl e \<Rightarrow> ([], Inl e)
           | Inr True \<Rightarrow>
               ([], Inr \<lparr>status = 429, statusText = ''Bad Gateway'',
                         headers = [(''Content-Type'', ''application/json'')],
                         body = JSON_stringify (JsonObject [(''error'', JsonString ''Bad Gateway'')])\<rparr>)
           | Inr False \<Rightarrow>
               (case url of
                  JString s \<Rightarrow> ([''Unexpected fetch call: '' @ s], Inl (Error ''Should never happen''))
                | _ \<Rightarrow> ([], Inl TypeError))))"

subsection \<open>Random payload text\<close>

definition chars :: string where
  "chars = ''ABCDEFGHIJKLMNOPQRSTUVWXYZabcdefghijklmnopqrstuvwxyz0123456789 .,!?''"

text \<open>
  \<open>String.prototype.charAt\<close>: the one-character string at the index, the empty string
  when the index is out of range.
\<close>

definition charAt :: "string \<Rightarrow> int \<Rightarrow> string" where
  "charAt s i = (if 0 \<le> i \<and> i < int (length s) then [s ! nat i] else [])"

text \<open>
  Numbers are IEEE 754 binary64 values; a finite one is a rational. \<open>round_even\<close> is the
  nearest integer, a tie going to the even one.
\<close>

definition round_even :: "rat \<Rightarrow> int" where
  "round_even y =
     (let f = \<lfloor>y\<rfloor>; d = y - of_int f
      in if d < 1 / 2 then f else if 1 / 2 < d then f + 1 else if even f then f else f + 1)"

text \<open>
  The binade of a non-negative rational: the exponent \<open>e\<close> with \<open>2^e \<le> x < 2^(e+1)\<close>,
  not below -1022 (smaller values are subnormal and share the exponent -1022).
  \<open>binade_up\<close> counts the halvings of a value that is at least 1, \<open>binade_down\<close> the
  doublings of a value below 1.
\<close>

function binade_up :: "rat \<Rightarrow> int \<Rightarrow> int" where
  "binade_up x e = (if x < 2 then e else binade_up (x / 2) (e + 1))"
  by pat_completeness auto
termination
proof (relation "measure (\<lambda>(x, e). nat \<lfloor>x\<rfloor>)")
  show "wf (measure (\<lambda>(x, e). nat \<lfloor>x\<rfloor>))" by simp
next
  fix x :: rat and e :: int
  assume "\<not> x < 2"
  then have x: "2 \<le> x" by simp
  have "\<lfloor>x / 2\<rfloor> \<le> \<lfloor>x - 1\<rfloor>" using x by (intro floor_mono) simp
  then have "\<lfloor>x / 2\<rfloor> < \<lfloor>x\<rfloor>" by simp
  moreover have "0 < \<lfloor>x\<rfloor>" using x by simp
  ultimately show "((x / 2, e + 1), (x, e)) \<in> measure (\<lambda>(x, e). nat \<lfloor>x\<rfloor>)" by simp
qed

function binade_down :: "rat \<Rightarrow> int \<Rightarrow> int" where
  "binade_down x e = (if 1 \<le> x \<or> e \<le> - 1022 then e else binade_down (2 * x) (e - 1))"
  by pat_completeness auto
termination
  by (relation "measure (\<lambda>(x, e). nat (e + 1022))") auto

definition binade :: "rat \<Rightarrow> int" where
  "binade x = (if 1 \<le> x then binade_up x 0 else binade_down (2 * x) (- 1))"

text \<open>
  The binary64 value of a rational below \<open>2^1024\<close>: round to nearest, ties to even, with
  53 significant bits (the spacing in the binade \<open>e\<close> is \<open>2^(e-52)\<close>). A JavaScript
  product \<open>a * b\<close> of two doubles is \<open>binary64 (a * b)\<close>, and a rational \<open>x\<close> is a
  double exactly when \<open>binary64 x = x\<close>.
\<close>

definition binary64 :: "rat \<Rightarrow> rat" where
  "binary64 x = (let u = 2 powi (binade \<bar>x\<bar> - 52) in of_int (round_even (x / u)) * u)"


text \<open>
  \<open>generateRandomText\<close> (lines 106-113). \<open>rnd k\<close> is the double the \<open>k\<close>-th call of
  \<open>Math.random()\<close> returns during the run of the function. The index is
  \<open>Math.floor(Math.random() * chars.length)\<close>: the binary64 product, then the floor,
  which is exact. The loop counter starts at 0 and the loop runs while \<open>i < length\<close>.
\<close>

function generateRandomText_loop :: "(nat \<Rightarrow> rat) \<Rightarrow> int \<Rightarrow> nat \<Rightarrow> string \<Rightarrow> string" where
  "generateRandomText_loop rnd len i result =
     (if int i < len
      then generateRandomText_loop rnd len (Suc i)
             (result @ charAt chars \<lfloor>binary64 (rnd i * of_nat (length chars))\<rfloor>)
      else result)"
  by pat_completeness auto
termination
  by (relation "measure (\<lambda>(rnd, len, i, result). nat (len - int i))") auto

definition generateRandomText :: "(nat \<Rightarrow> rat) \<Rightarrow> int \<Rightarrow> string" where
  "generateRandomText rnd len = generateRandomText_loop rnd len 0 []"

subsection \<open>The final verdict\<close>

record memory_usage =
  rss :: int
  heapTotal :: int
  heapUsed :: int
  external :: int

text \<open>
  What \<open>replicateMemoryLeak\<close> holds when it reaches its last statement (lines 200-226):
  the three memory samples, the number of traces attempted and the queue length the
  monitor last read.
\<close>

record harness_state =
  initialMemory :: memory_usage
  finalMemory :: memory_usage
  afterWaitMemory :: memory_usage
  traceCount :: nat
  queueSize :: nat

datatype verdict =
    MemoryLeakDetected   \<comment> \<open>"MEMORY LEAK DETECTED: Heap grew by more than 50MB"\<close>
  | MemoryGrowthNormal   \<comment> \<open>"Memory growth appears normal"\<close>

definition heapGrowth :: "harness_state \<Rightarrow> int" where
  "heapGrowth st = heapUsed (finalMemory st) - heapUsed (initialMemory st)"

definition final_verdict :: "harness_state \<Rightarrow> verdict" where
  "final_verdict st =
     (if heapGrowth st > 50 * 1024 * 1024 then MemoryLeakDetected else MemoryGrowthNormal)"

subsection \<open>The trace producer\<close>

text \<open>
  One firing of the \<open>traceInterval\<close> callback (lines 168-192). \<open>client.createRun\<close> is
  the SDK's; what the callback can see of it is whether the call throws or returns a
  promise, and how that promise settles.
\<close>

datatype settlement =
    PromisePending
  | PromiseFulfilled
  | PromiseRejected js_error

datatype createRun_result =
    Throws js_error
  | Returns settlement

text \<open>
  What the process shows of the producer: the lines written with \<open>console.error\<close>, and
  the rejections no handler was attached to (Node reports those and ends the process).
\<close>

record producer_state =
  traceCount_p :: nat
  console_error :: "js_error list"
  unhandled_rejections :: "js_error list"

text \<open>
  \<open>promise.catch(handler)\<close> with a handler whose body is empty: the rejection is handled
  and the derived promise fulfils.
\<close>

fun catch_ignore :: "settlement \<Rightarrow> settlement" where
  "catch_ignore (PromiseRejected e) = PromiseFulfilled"
| "catch_ignore s = s"

fun rejection_of :: "settlement \<Rightarrow> js_error list" where
  "rejection_of (PromiseRejected e) = [e]"
| "rejection_of s = []"

definition traceInterval_tick :: "createRun_result \<Rightarrow> producer_state \<Rightarrow> producer_state" where
  "traceInterval_tick r st =
     (case r of
        Throws e \<Rightarrow> st\<lparr>console_error := console_error st @ [e]\<rparr>
      | Returns runPromise \<Rightarrow>
          st\<lparr>traceCount_p := traceCount_p st + 1,
             unhandled_rejections :=
               unhandled_rejections st @ rejection_of (catch_ignore runPromise)\<rparr>)"

section \<open>The ingestion engine (spec sections 3 to 7)\<close>

text \<open>
  The engine behind \<open>client.createRun\<close> is the SDK's \<open>Client\<close>; src/ holds only its
  caller. Every definition of this section is therefore written from the words of the
  specification, and says which sentence it follows. Buffer mutations are atomic (section
  5: all access is serialised through a single exclusion mechanism), so concurrent
  execution is an interleaving of the atomic events below.
\<close>

subsection \<open>Data model (section 3)\<close>

text \<open>
  Modelled from the spec: the Record of section 3, absent from src/. "An immutable value
  with an identifier, a logical timestamp/ordering key (\<open>dotted_order\<close>), a payload
  blob, and a size-in-bytes estimate computed at enqueue time."
\<close>

record Record =
  rec_id :: nat
  dotted_order :: string
  payload :: string
  size_bytes :: nat

text \<open>
  Modelled from the spec: a buffered Record together with the number of retries already
  spent on it ("a maximum retry count per Record", section 4.3). The Record itself is
  never mutated; the count is the engine's bookkeeping.
\<close>

type_synonym entry = "Record \<times> nat"

text \<open>Modelled from the spec: the SendOutcome of section 3, absent from src/.\<close>

datatype SendOutcome =
    Success
  | RetryableFailure string
  | FatalFailure string

text \<open>
  Modelled from the spec: the \<open>queueFullPolicy\<close> option of section 6,
  \<open>{reject | dropOldest | block}\<close>.
\<close>

datatype QueueFullPolicy =
    PolicyReject
  | PolicyDropOldest
  | PolicyBlock

text \<open>Modelled from the spec: the recognised configuration options of section 6.\<close>

record Config =
  maxQueueBytes :: nat
  maxBatchItems :: nat
  maxBatchBytes :: nat
  maxDrainConcurrency :: nat
  minBatchFlushIntervalMs :: nat
  maxRetriesPerRecord :: nat
  backoffBaseMs :: nat
  backoffMaxMs :: nat
  queueFullPolicy :: QueueFullPolicy

text \<open>
  Modelled from the spec: the shared state of sections 3 and 5, absent from src/: the
  Record Buffer (oldest record first), the in-flight Batches (each "an ordered,
  size-bounded group of Records assembled for a single send attempt"), the
  consecutive-failure counter of QueueState, and the fatal failures handed to the
  observability sink. The other QueueState counters are read off the lists.
\<close>

record engine_state =
  buffer :: "entry list"
  inflight :: "entry list list"
  consecutiveFailures :: nat
  sink :: "string list"

text \<open>Modelled from the spec: the byte total of QueueState, over a list of entries.\<close>

definition bytes :: "entry list \<Rightarrow> nat" where
  "bytes es = sum_list (map (\<lambda>e. size_bytes (fst e)) es)"

text \<open>Modelled from the spec: the bytes of all in-flight Batches (section 3).\<close>

definition inflight_bytes :: "engine_state \<Rightarrow> nat" where
  "inflight_bytes s = bytes (concat (inflight s))"

text \<open>
  Modelled from the spec: "the sum of byte sizes of Records currently resident in the
  Record Buffer plus all in-flight Batches" (section 3).
\<close>

definition total_bytes :: "engine_state \<Rightarrow> nat" where
  "total_bytes s = bytes (buffer s) + inflight_bytes s"

text \<open>Modelled from the spec: the Records the engine holds, in-flight ones first.\<close>

definition resident :: "engine_state \<Rightarrow> Record list" where
  "resident s = map fst (concat (inflight s) @ buffer s)"

text \<open>
  Modelled from the spec: the engine before any enqueue: nothing buffered, nothing in
  flight, no failure counted.
\<close>

definition init :: engine_state where
  "init = \<lparr>buffer = [], inflight = [], consecutiveFailures = 0, sink = []\<rparr>"

subsection \<open>Record Buffer (section 4.1)\<close>

text \<open>
  Modelled from the spec: dropping the oldest records, head first, until what is left fits
  into \<open>room\<close> bytes ("displace the oldest record", section 3; "oldest excess records are
  dropped", section 4.3).
\<close>

fun shed_oldest :: "nat \<Rightarrow> entry list \<Rightarrow> entry list" where
  "shed_oldest room [] = []"
| "shed_oldest room (e # es) = (if bytes (e # es) \<le> room then e # es else shed_oldest room es)"

text \<open>
  Modelled from the spec: the results of \<open>enqueue\<close>, \<open>Accepted | Rejected(QueueFull)\<close>
  (sections 4.1 and 6).
\<close>

datatype reject_reason = QueueFull

datatype enqueue_result =
    Accepted
  | Rejected reject_reason

text \<open>
  Modelled from the spec: \<open>enqueue(record) -> Accepted | Rejected(reason)\<close> of section
  4.1, absent from src/. Capacity is enforced at enqueue time against the hard cap of
  section 3. A record that fits is appended. Otherwise the policy decides: reject fails
  with \<open>Rejected(QueueFull)\<close>; block does not return (the result \<open>None\<close>) and leaves the
  state as it is; dropOldest displaces the oldest buffered records until the new one
  fits. The spec does not say what dropOldest does with a record that has no room even
  in an empty buffer (in-flight Batches cannot be displaced); the only result its
  contract leaves is \<open>Rejected(QueueFull)\<close>, which is what the model returns.
\<close>

definition enqueue :: "Config \<Rightarrow> Record \<Rightarrow> engine_state \<Rightarrow> enqueue_result option \<times> engine_state" where
  "enqueue cfg r s =
     (if total_bytes s + size_bytes r \<le> maxQueueBytes cfg
      then (Some Accepted, s\<lparr>buffer := buffer s @ [(r, 0)]\<rparr>)
      else (case queueFullPolicy cfg of
              PolicyReject \<Rightarrow> (Some (Rejected QueueFull), s)
            | PolicyBlock \<Rightarrow> (None, s)
            | PolicyDropOldest \<Rightarrow>
                (if inflight_bytes s + size_bytes r \<le> maxQueueBytes cfg
                 then (Some Accepted,
                       s\<lparr>buffer :=
                            shed_oldest (maxQueueBytes cfg - inflight_bytes s - size_bytes r) (buffer s)
                            @ [(r, 0)]\<rparr>)
                 else (Some (Rejected QueueFull), s))))"

text \<open>
  Modelled from the spec: \<open>takeUpTo(maxCount, maxBytes)\<close> of section 4.1, absent from
  src/: "removes and returns items, respecting insertion order". The result is the pair
  of the records taken and the records left: the longest run from the front of the buffer
  that stays within both bounds.
\<close>

fun takeUpTo :: "nat \<Rightarrow> nat \<Rightarrow> entry list \<Rightarrow> entry list \<times> entry list" where
  "takeUpTo maxCount maxBytes [] = ([], [])"
| "takeUpTo maxCount maxBytes (e # es) =
     (if maxCount = 0 \<or> maxBytes < size_bytes (fst e) then ([], e # es)
      else (case takeUpTo (maxCount - 1) (maxBytes - size_bytes (fst e)) es of
              (taken, left) \<Rightarrow> (e # taken, left)))"

subsection \<open>Batcher (section 4.2)\<close>

text \<open>
  Modelled from the spec: the Batcher "repeatedly calls \<open>takeUpTo\<close> to form batches
  bounded by a maximum item count and a maximum byte size" and "produces zero or more
  ready Batches per invocation". It stops when \<open>takeUpTo\<close> returns nothing. The result
  is the pair of the batches, in the order formed, and the records left.
\<close>

function form_batches :: "nat \<Rightarrow> nat \<Rightarrow> entry list \<Rightarrow> entry list list \<times> entry list" where
  "form_batches maxCount maxBytes buf =
     (case takeUpTo maxCount maxBytes buf of
        ([], left) \<Rightarrow> ([], left)
      | (e # taken, left) \<Rightarrow>
          (case form_batches maxCount maxBytes left of
             (batches, rest) \<Rightarrow> ((e # taken) # batches, rest)))"
  by pat_completeness auto

lemma takeUpTo_length:
  "takeUpTo maxCount maxBytes buf = (taken, left) \<Longrightarrow> length taken + length left = length buf"
  by (induction buf arbitrary: maxCount maxBytes taken left)
     (auto split: if_splits prod.splits)

termination form_batches
  by (relation "measure (\<lambda>(maxCount, maxBytes, buf). length buf)")
     (auto dest: takeUpTo_length [OF sym])

subsection \<open>Drain Coordinator (section 4.3)\<close>

text \<open>
  Modelled from the spec: one \<open>drain()\<close> invocation, absent from src/. "At most N drain
  operations run concurrently"; "a new drain invocation that finds N operations already
  in flight ... becomes a no-op". Otherwise it claims one Batch with \<open>takeUpTo\<close>, which
  removes the records from the buffer, and puts it in flight.
\<close>

definition drain :: "Config \<Rightarrow> engine_state \<Rightarrow> engine_state" where
  "drain cfg s =
     (if maxDrainConcurrency cfg \<le> length (inflight s) then s
      else (case takeUpTo (maxBatchItems cfg) (maxBatchBytes cfg) (buffer s) of
              ([], left) \<Rightarrow> s
            | (e # taken, left) \<Rightarrow> s\<lparr>buffer := left, inflight := inflight s @ [e # taken]\<rparr>))"

text \<open>
  Modelled from the spec: what returns to the buffer after a RetryableFailure (section
  4.3): the Batch's records in their order, "subject to a maximum retry count per
  Record". A record whose retries are exhausted is left out; the others have one more
  retry spent.
\<close>

definition retry_survivors :: "Config \<Rightarrow> entry list \<Rightarrow> entry list" where
  "retry_survivors cfg batch =
     map (\<lambda>(r, k). (r, Suc k)) (filter (\<lambda>(r, k). k < maxRetriesPerRecord cfg) batch)"

text \<open>
  Modelled from the spec: "Records are returned to the front of the Record Buffer
  (preserving order) subject to a maximum retry count per Record and the buffer's byte cap
  -- if re-insertion would exceed the cap, oldest excess records are dropped" (section
  4.3). \<open>room\<close> is the cap less the bytes still in flight.
\<close>

definition requeue :: "Config \<Rightarrow> nat \<Rightarrow> entry list \<Rightarrow> entry list \<Rightarrow> entry list" where
  "requeue cfg room batch buf = shed_oldest room (retry_survivors cfg batch @ buf)"

text \<open>
  Modelled from the spec: the outcome of the send of the in-flight Batch at position
  \<open>i\<close> (section 4.3), absent from src/. "On Success: Batch's Records are discarded
  (never requeued)", and the Success resets the consecutive-failure counter (section
  4.4). On RetryableFailure the records are requeued. "On FatalFailure: Records are
  discarded and the failure is surfaced to an observability sink." An index with no
  Batch in flight changes nothing.
\<close>

definition on_send_outcome :: "Config \<Rightarrow> nat \<Rightarrow> SendOutcome \<Rightarrow> engine_state \<Rightarrow> engine_state" where
  "on_send_outcome cfg i outcome s =
     (if length (inflight s) \<le> i then s
      else (let batch = inflight s ! i;
                others = take i (inflight s) @ drop (Suc i) (inflight s)
            in case outcome of
                 Success \<Rightarrow> s\<lparr>inflight := others, consecutiveFailures := 0\<rparr>
               | RetryableFailure reason \<Rightarrow>
                   s\<lparr>buffer := requeue cfg (maxQueueBytes cfg - bytes (concat others)) batch (buffer s),
                      inflight := others,
                      consecutiveFailures := Suc (consecutiveFailures s)\<rparr>
               | FatalFailure reason \<Rightarrow>
                   s\<lparr>inflight := others, sink := sink s @ [reason]\<rparr>))"

text \<open>
  Modelled from the spec: the atomic events of an execution and their effect. A producer
  enqueues a record, a drain is invoked (by the timer or a flush), or the Transport
  Adapter reports the outcome of an in-flight Batch.
\<close>

datatype event =
    Enqueue Record
  | Drain
  | Complete nat SendOutcome

text \<open>Modelled from the spec: the effect of one event on the engine.\<close>

fun step :: "Config \<Rightarrow> engine_state \<Rightarrow> event \<Rightarrow> engine_state" where
  "step cfg s (Enqueue r) = snd (enqueue cfg r s)"
| "step cfg s Drain = drain cfg s"
| "step cfg s (Complete i outcome) = on_send_outcome cfg i outcome s"

text \<open>
  Modelled from the spec: an execution, the events applied in order from a state; the
  reachable states are \<open>exec cfg evs init\<close> over all event lists.
\<close>

definition exec :: "Config \<Rightarrow> event list \<Rightarrow> engine_state \<Rightarrow> engine_state" where
  "exec cfg evs s = foldl (step cfg) s evs"

text \<open>Modelled from the spec: the records the producers passed to \<open>enqueue\<close>, in order.\<close>

fun enqueued :: "event list \<Rightarrow> Record list" where
  "enqueued [] = []"
| "enqueued (Enqueue r # evs) = r # enqueued evs"
| "enqueued (ev # evs) = enqueued evs"

text \<open>
  Modelled from the spec: the entries the engine holds, in-flight Batches first, each a
  Record with its retries spent.
\<close>

definition entries :: "engine_state \<Rightarrow> entry list" where
  "entries s = concat (inflight s) @ buffer s"

text \<open>
  Modelled from the spec: the event is the RetryableFailure of a Batch in flight in the
  state, and the record is one of that Batch: one send of the record has failed.
\<close>

fun failed_send :: "engine_state \<Rightarrow> event \<Rightarrow> Record \<Rightarrow> bool" where
  "failed_send s (Complete i (RetryableFailure reason)) r =
     (i < length (inflight s) \<and> r \<in> fst ` set (inflight s ! i))"
| "failed_send s ev r = False"

text \<open>
  Modelled from the spec: the number of RetryableFailure outcomes a record receives in the
  course of an execution from a state. It is read off the events and the Batches in
  flight when each outcome arrives, not off the retry counts the engine keeps.
\<close>

fun retryable_failures :: "Config \<Rightarrow> engine_state \<Rightarrow> event list \<Rightarrow> Record \<Rightarrow> nat" where
  "retryable_failures cfg s [] r = 0"
| "retryable_failures cfg s (ev # evs) r =
     (if failed_send s ev r then 1 else 0) + retryable_failures cfg (step cfg s ev) evs r"


subsection \<open>Transport resources (sections 4.3, 5 and 9)\<close>

text \<open>
  Modelled from the spec: the state tag of a transport resource, \<open>unclaimed \<rightarrow> in-use \<rightarrow>
  closed\<close> (section 4.3); an in-use resource records the operation that owns it.
\<close>

datatype resource_tag =
    Unclaimed
  | InUse nat
  | Closed

text \<open>
  Modelled from the spec: a transport resource, absent from src/: its tag and the number
  of times the underlying resource has been released.
\<close>

record resource =
  tag :: resource_tag
  releases :: nat

text \<open>Modelled from the spec: the DualOwnershipViolation of the taxonomy of section 7.\<close>

datatype resource_error = DualOwnershipViolation

text \<open>
  Modelled from the spec: claiming a resource for an operation (section 4.3). Only an
  unclaimed resource can be claimed; a second use of a resource "that a concurrent
  operation already owns or has already finalized" is the violation of section 7.
\<close>

definition claim :: "nat \<Rightarrow> resource \<Rightarrow> resource_error + resource" where
  "claim owner res =
     (case tag res of
        Unclaimed \<Rightarrow> Inr (res\<lparr>tag := InUse owner\<rparr>)
      | _ \<Rightarrow> Inl DualOwnershipViolation)"

text \<open>
  Modelled from the spec: finalising a resource on behalf of the operation \<open>caller\<close>:
  "cancellation/close being a no-op (not an error) if the resource is already closed, and
  an error if attempted while still claimed by another owner" (section 4.3). The owner's
  own finalisation releases the resource and closes it. The spec is silent on a resource
  nobody claimed; there is nothing to release, and the model leaves it as it is.
\<close>

definition finalize :: "nat \<Rightarrow> resource \<Rightarrow> resource_error + resource" where
  "finalize caller res =
     (case tag res of
        Closed \<Rightarrow> Inr res
      | Unclaimed \<Rightarrow> Inr res
      | InUse owner \<Rightarrow>
          (if owner = caller then Inr \<lparr>tag = Closed, releases = Suc (releases res)\<rparr>
           else Inl DualOwnershipViolation))"

text \<open>
  Modelled from the spec: what can happen to a handle (sections 5 and 6): its operation
  completes, or \<open>cancel(handle)\<close> is called; each finalises the resource for the handle's
  operation. A sequence of them stops at the first error.
\<close>

datatype handle_op =
    OperationCompletes
  | Cancel

text \<open>
  Modelled from the spec: \<open>cancel(handle)\<close> of the Transport Adapter (section 6),
  "idempotent, safe against already-finalized handles": it finalises the resource for the
  handle's operation.
\<close>

definition cancel :: "nat \<Rightarrow> resource \<Rightarrow> resource_error + resource" where
  "cancel handle res = finalize handle res"

text \<open>
  Modelled from the spec: the effect of one and of several such steps on the resource of
  a handle, in the order they happen.
\<close>

fun apply_handle_op :: "nat \<Rightarrow> handle_op \<Rightarrow> resource \<Rightarrow> resource_error + resource" where
  "apply_handle_op handle OperationCompletes res = finalize handle res"
| "apply_handle_op handle Cancel res = cancel handle res"

fun apply_handle_ops :: "nat \<Rightarrow> handle_op list \<Rightarrow> resource \<Rightarrow> resource_error + resource" where
  "apply_handle_ops handle [] res = Inr res"
| "apply_handle_ops handle (x # xs) res =
     (case apply_handle_op handle x res of
        Inl e \<Rightarrow> Inl e
      | Inr res' \<Rightarrow> apply_handle_ops handle xs res')"

subsection \<open>Sample inputs\<close>

text \<open>
  A small configuration and three records, used to run the engine on concrete inputs:
  a cap of 10 bytes, batches of at most one record, two concurrent drains, one retry.
\<close>

definition sample_config :: "QueueFullPolicy \<Rightarrow> Config" where
  "sample_config policy =
     \<lparr>maxQueueBytes = 10, maxBatchItems = 1, maxBatchBytes = 8, maxDrainConcurrency = 2,
      minBatchFlushIntervalMs = 0, maxRetriesPerRecord = 1, backoffBaseMs = 100,
      backoffMaxMs = 800, queueFullPolicy = policy\<rparr>"

definition sample_record :: "nat \<Rightarrow> nat \<Rightarrow> Record" where
  "sample_record n sz = \<lparr>rec_id = n, dotted_order = ''20241013T070535809001Z'', payload = [], size_bytes = sz\<rparr>"

section \<open>Properties of the harness\<close>

lemma str_includes_iff: "str_includes s sub \<longleftrightarrow> (\<exists>pre suf. s = pre @ sub @ suf)"
proof (induction s)
  case Nil
  then show ?case by auto
next
  case (Cons c cs)
  show ?case
  proof
    assume "str_includes (c # cs) sub"
    then consider "prefix sub (c # cs)" | "str_includes cs sub" by auto
    then show "\<exists>pre suf. c # cs = pre @ sub @ suf"
    proof cases
      case 1
      then obtain suf where "c # cs = sub @ suf" by (auto simp: prefix_def)
      then have "c # cs = [] @ sub @ suf" by simp
      then show ?thesis by blast
    next
      case 2
      with Cons.IH obtain pre suf where "cs = pre @ sub @ suf" by blast
      then have "c # cs = (c # pre) @ sub @ suf" by simp
      then show ?thesis by blast
    qed
  next
    assume "\<exists>pre suf. c # cs = pre @ sub @ suf"
    then obtain pre suf where eq: "c # cs = pre @ sub @ suf" by blast
    show "str_includes (c # cs) sub"
    proof (cases pre)
      case Nil
      with eq have "prefix sub (c # cs)" by (simp add: prefix_def)
      then show ?thesis by simp
    next
      case (Cons p ps)
      with eq have "cs = ps @ sub @ suf" by simp
      with Cons.IH have "str_includes cs sub" by blast
      then show ?thesis by simp
    qed
  qed
qed

lemma body_text:
  \<open>JSON_stringify (JsonObject [(''error'', JsonString ''Bad Gateway'')]) = ''{"error":"Bad Gateway"}''\<close>
  by (simp add: json_quote_def)

subsection \<open>The fetch mock answers 429 or throws\<close>

text \<open>
  Claim C8. The installed \<open>global.fetch\<close> has two outcomes and no other. When the URL it
  reads from its argument (the argument itself if it is a string, its \<open>url\<close> property
  otherwise) is a string containing \<open>api.smith.langchain\<close>, it returns a response with
  status 429 (not the 502 of the comments), status text "Bad Gateway" and the JSON body
  \<open>{"error":"Bad Gateway"}\<close>. In every other case it throws: the error "Should never
  happen" for another URL, a TypeError when the argument carries no string URL. It never
  performs a request of its own.
\<close>

theorem fetch_two_branches:
  \<open>((\<exists>u. url_of input = Inr (JString u) \<and> str_includes u ''api.smith.langchain'') \<longrightarrow>
      (\<exists>r. snd (fetch input) = Inr r \<and> status r = 429 \<and> status r \<noteq> 502 \<and>
           statusText r = ''Bad Gateway'' \<and> body r = ''{"error":"Bad Gateway"}'')) \<and>
    (\<not> (\<exists>u. url_of input = Inr (JString u) \<and> str_includes u ''api.smith.langchain'') \<longrightarrow>
      (\<exists>e. snd (fetch input) = Inl e))\<close>
proof (cases "url_of input")
  case (Inl e)
  then show ?thesis by (simp add: fetch_def)
next
  case (Inr url)
  show ?thesis
  proof (cases url)
    case (JString u)
    with Inr show ?thesis
      by (cases "str_includes u ''api.smith.langchain''") (simp_all add: fetch_def json_quote_def)
  qed (use Inr in \<open>simp_all add: fetch_def\<close>)
qed

theorem fetch_two_branches_witness:
  \<open>(\<exists>r. snd (fetch (JString ''https://api.smith.langchain.com/runs/multipart'')) = Inr r \<and> status r = 429) \<and>
    fetch (JObject [(''url'', JString ''https://example.com/'')]) =
      ([''Unexpected fetch call: https://example.com/''], Inl (Error ''Should never happen'')) \<and>
    fetch (JObject [(''href'', JString ''https://api.smith.langchain.com/'')]) = ([], Inl TypeError)\<close>
proof -
  have other: \<open>fetch (JObject [(''url'', JString ''https://example.com/'')]) =
      ([''Unexpected fetch call: https://example.com/''], Inl (Error ''Should never happen''))\<close>
    by (simp add: fetch_def url_of_def)
  have no_url: \<open>fetch (JObject [(''href'', JString ''https://api.smith.langchain.com/'')]) = ([], Inl TypeError)\<close>
    by (simp add: fetch_def url_of_def)
  show ?thesis
    using fetch_two_branches [of "JString ''https://api.smith.langchain.com/runs/multipart''"]
      fetch_two_branches [of "JObject [(''url'', JString ''https://example.com/'')]"]
      other no_url
    by (simp add: url_of_def) blast
qed

subsection \<open>Random text has the requested length\<close>

declare binade_up.simps [simp del] binade_down.simps [simp del]

lemma round_even_le: "y \<le> of_int N \<Longrightarrow> round_even y \<le> N"
proof -
  assume le: "y \<le> of_int N"
  have f: "\<lfloor>y\<rfloor> \<le> N" using le by (simp add: floor_le_iff)
  show ?thesis
  proof (cases "y = of_int N")
    case True
    then show ?thesis by (simp add: round_even_def)
  next
    case False
    with le have "y < of_int N" by simp
    then have "\<lfloor>y\<rfloor> < N" by (simp add: floor_less_iff)
    then show ?thesis by (simp add: round_even_def Let_def)
  qed
qed

lemma round_even_nonneg: "0 \<le> y \<Longrightarrow> 0 \<le> round_even y"
  by (simp add: round_even_def Let_def)

lemma round_even_below_half: 
  assumes "y < of_int N - 1 / 2"
  shows "round_even y \<le> N - 1"
proof -
  have "y < of_int N" using assms by simp
  then have f: "\<lfloor>y\<rfloor> \<le> N - 1" by (simp add: floor_less_iff)
  show ?thesis
  proof (cases "\<lfloor>y\<rfloor> = N - 1")
    case True
    then have "y - of_int \<lfloor>y\<rfloor> < 1 / 2" using assms by simp
    then show ?thesis using True by (simp add: round_even_def Let_def)
  next
    case False
    with f have "\<lfloor>y\<rfloor> + 1 \<le> N - 1" by simp
    then show ?thesis by (simp add: round_even_def Let_def)
  qed
qed

lemma round_even_of_int [simp]: "round_even (of_int n) = n"
  by (simp add: round_even_def)

lemma binade_up_ge: "e \<le> binade_up x e"
proof (induction x e rule: binade_up.induct)
  case (1 x e)
  show ?case
  proof (cases "x < 2")
    case True
    then show ?thesis by (subst binade_up.simps) simp
  next
    case False
    with "1.IH" have "e + 1 \<le> binade_up (x / 2) (e + 1)" by simp
    with False show ?thesis by (subst binade_up.simps) simp
  qed
qed

lemma binade_up_upper: "x < 2 * 2 ^ j \<Longrightarrow> binade_up x e \<le> e + int j"
proof (induction j arbitrary: x e)
  case 0
  then show ?case by (subst binade_up.simps) simp
next
  case (Suc j)
  show ?case
  proof (cases "x < 2")
    case True
    then show ?thesis by (subst binade_up.simps) simp
  next
    case False
    have "x / 2 < 2 * 2 ^ j" using Suc.prems by simp
    then have "binade_up (x / 2) (e + 1) \<le> e + 1 + int j" by (rule Suc.IH)
    with False show ?thesis by (subst binade_up.simps) simp
  qed
qed

lemma binade_up_lower: "2 ^ j \<le> x \<Longrightarrow> e + int j \<le> binade_up x e"
proof (induction j arbitrary: x e)
  case 0
  then show ?case by (simp add: binade_up_ge)
next
  case (Suc j)
  have "2 \<le> x"
  proof -
    have "(2::rat) \<le> 2 ^ Suc j" by simp
    with Suc.prems show ?thesis by linarith
  qed
  moreover have "2 ^ j \<le> x / 2" using Suc.prems by simp
  then have "e + 1 + int j \<le> binade_up (x / 2) (e + 1)" by (rule Suc.IH)
  ultimately show ?case by (subst binade_up.simps) simp
qed

lemma binade_down_le: "binade_down x e \<le> e"
proof (induction x e rule: binade_down.induct)
  case (1 x e)
  show ?case
  proof (cases "1 \<le> x \<or> e \<le> - 1022")
    case True
    then show ?thesis by (subst binade_down.simps) simp
  next
    case False
    with "1.IH" have "binade_down (2 * x) (e - 1) \<le> e - 1" by simp
    with False show ?thesis by (subst binade_down.simps) simp
  qed
qed

lemma binade_down_eq:
  "1 \<le> x * 2 ^ n \<Longrightarrow> x * 2 ^ n < 2 \<Longrightarrow> - 1022 \<le> e - int n \<Longrightarrow> binade_down x e = e - int n"
proof (induction n arbitrary: x e)
  case 0
  then show ?case by (subst binade_down.simps) simp
next
  case (Suc n)
  have x: "\<not> 1 \<le> x"
  proof
    assume "1 \<le> x"
    moreover have "(2::rat) \<le> 2 ^ Suc n" by simp
    ultimately have "1 * 2 \<le> x * 2 ^ Suc n" by (intro mult_mono) simp_all
    with Suc.prems(2) show False by simp
  qed
  have e: "\<not> e \<le> - 1022" using Suc.prems(3) by simp
  have "binade_down (2 * x) (e - 1) = e - 1 - int n"
    using Suc.prems by (intro Suc.IH) (simp_all add: mult.assoc mult.commute mult.left_commute)
  with x e show ?case by (subst binade_down.simps) simp
qed

lemma binade_half: "1 / 2 \<le> r \<Longrightarrow> r < 1 \<Longrightarrow> binade r = - 1"
  using binade_down_eq [of "2 * r" 0 "- 1"] by (simp add: binade_def)

lemma binade_below_64: "0 \<le> x \<Longrightarrow> x < 64 \<Longrightarrow> binade x \<le> 5"
proof (cases "1 \<le> x")
  case True
  assume "x < 64"
  then have "binade_up x 0 \<le> 0 + int 5" by (intro binade_up_upper) simp
  with True show ?thesis by (simp add: binade_def)
next
  case False
  have "binade_down (2 * x) (- 1) \<le> - 1" by (rule binade_down_le)
  with False show ?thesis by (simp add: binade_def)
qed

lemma binade_64: "64 \<le> x \<Longrightarrow> x < 128 \<Longrightarrow> binade x = 6"
proof -
  assume lo: "64 \<le> x" and hi: "x < 128"
  have "binade_up x 0 \<le> 0 + int 6" using hi by (intro binade_up_upper) simp
  moreover have "0 + int 6 \<le> binade_up x 0" using lo by (intro binade_up_lower) simp
  ultimately show ?thesis using lo by (simp add: binade_def)
qed

lemma double_below_one:
  assumes "0 \<le> r" "r < 1" "binary64 r = r"
  shows "r \<le> 1 - 1 / 2 ^ 53"
proof (cases "r < 1 / 2")
  case True
  then show ?thesis by simp
next
  case False
  then have b: "binade \<bar>r\<bar> = - 1" using assms by (simp add: binade_half)
  define n where "n = round_even (r * 2 ^ 53)"
  have u: "(2::rat) powi (- 53) = 1 / 2 ^ 53"
    by (simp add: power_int_minus field_simps)
  have "binary64 r = of_int n / 2 ^ 53"
    unfolding binary64_def Let_def b n_def by (simp add: u)
  with assms(3) have r: "r = of_int n / 2 ^ 53" by simp
  with assms(2) have "of_int n < (2::rat) ^ 53" by simp
  then have "of_int n < (of_int (2 ^ 53) :: rat)" by simp
  then have "n < 2 ^ 53" by (simp only: of_int_less_iff)
  then have "n \<le> 2 ^ 53 - 1" by simp
  then have "(of_int n :: rat) \<le> of_int (2 ^ 53 - 1)" by (simp only: of_int_le_iff)
  then have "(of_int n :: rat) / 2 ^ 53 \<le> (2 ^ 53 - 1) / 2 ^ 53"
    by (simp add: divide_right_mono)
  with r show ?thesis by (simp add: field_simps)
qed

lemma product_index:
  assumes "0 \<le> r" "r < 1" "binary64 r = r"
  shows "0 \<le> \<lfloor>binary64 (r * 67)\<rfloor> \<and> \<lfloor>binary64 (r * 67)\<rfloor> < 67"
proof -
  define x where "x = r * 67"
  have x0: "0 \<le> x" using assms(1) by (simp add: x_def)
  have xhi: "x \<le> 67 - 67 / 2 ^ 53"
    using double_below_one [OF assms] by (simp add: x_def field_simps)
  define u :: rat where "u = 2 powi (binade \<bar>x\<bar> - 52)"
  have upos: "0 < u" by (simp add: u_def)
  have val: "binary64 x = of_int (round_even (x / u)) * u"
    by (simp add: binary64_def u_def Let_def)
  have lo: "0 \<le> binary64 x"
    unfolding val using x0 upos by (intro mult_nonneg_nonneg) (simp_all add: round_even_nonneg)
  have hi: "binary64 x < 67"
  proof (cases "64 \<le> x")
    case True
    have "x < 128" using xhi by simp
    with True have "binade \<bar>x\<bar> = 6" using x0 by (simp add: binade_64)
    then have ueq: "u = 1 / 2 ^ 46"
      by (simp add: u_def power_int_minus field_simps)
    have "x / u = x * 2 ^ 46" by (simp add: ueq)
    also have "\<dots> \<le> (67 - 67 / 2 ^ 53) * 2 ^ 46" using xhi by simp
    also have "\<dots> < of_int (67 * 2 ^ 46) - 1 / 2" by simp
    finally have "round_even (x / u) \<le> 67 * 2 ^ 46 - 1" by (rule round_even_below_half)
    then have "(of_int (round_even (x / u)) :: rat) \<le> of_int (67 * 2 ^ 46 - 1)"
      by (simp only: of_int_le_iff)
    then have "binary64 x \<le> of_int (67 * 2 ^ 46 - 1) * u"
      unfolding val using upos by (simp add: mult_right_mono)
    also have "\<dots> < 67" by (simp add: ueq)
    finally show ?thesis .
  next
    case False
    then have x64: "x < 64" by simp
    then have k: "binade \<bar>x\<bar> \<le> 5" using x0 by (simp add: binade_below_64)
    define N :: int where "N = 2 ^ nat (58 - binade \<bar>x\<bar>)"
    have "(64::rat) = 2 powi 6" by simp
    have "(64::rat) / u = 2 powi 6 / 2 powi (binade \<bar>x\<bar> - 52)" by (simp add: u_def)
    also have "\<dots> = 2 powi (6 - (binade \<bar>x\<bar> - 52))" by (simp add: power_int_diff)
    also have "\<dots> = 2 ^ nat (58 - binade \<bar>x\<bar>)"
      using k by (simp add: power_int_def)
    also have "\<dots> = of_int N" by (simp add: N_def)
    finally have N: "64 / u = of_int N" .
    have "x / u \<le> 64 / u" using x64 upos by (simp add: divide_right_mono)
    then have "round_even (x / u) \<le> N" unfolding N by (rule round_even_le)
    then have "(of_int (round_even (x / u)) :: rat) \<le> of_int N" by (simp only: of_int_le_iff)
    then have "binary64 x \<le> of_int N * u"
      unfolding val using upos by (simp add: mult_right_mono)
    also have "\<dots> = 64" using N [symmetric] upos by simp
    finally show ?thesis by simp
  qed
  from lo have "0 \<le> \<lfloor>binary64 x\<rfloor>" by simp
  moreover from hi have "\<lfloor>binary64 x\<rfloor> < 67" by (simp add: floor_less_iff)
  ultimately show ?thesis by (simp add: x_def)
qed

declare generateRandomText_loop.simps [simp del]

lemma loop_step:
  "int i < len \<Longrightarrow>
   generateRandomText_loop rnd len i result =
   generateRandomText_loop rnd len (Suc i)
     (result @ charAt chars \<lfloor>binary64 (rnd i * of_nat (length chars))\<rfloor>)"
  by (subst generateRandomText_loop.simps) simp

lemma loop_stop: "\<not> int i < len \<Longrightarrow> generateRandomText_loop rnd len i result = result"
  by (subst generateRandomText_loop.simps) simp

lemma charAt_chars_length:
  assumes "0 \<le> r" "r < 1" "binary64 r = r"
  shows "length (charAt chars \<lfloor>binary64 (r * of_nat (length chars))\<rfloor>) = 1"
proof -
  have len: "length chars = 67" by (simp add: chars_def)
  show ?thesis using product_index [OF assms] by (simp add: charAt_def len)
qed

lemma charAt_subset: "set (charAt s i) \<subseteq> set s"
  by (auto simp: charAt_def)

lemma loop_length:
  "\<forall>k. 0 \<le> rnd k \<and> rnd k < 1 \<and> binary64 (rnd k) = rnd k \<Longrightarrow>
   length (generateRandomText_loop rnd len i result) = length result + nat (len - int i)"
proof (induction rnd len i result rule: generateRandomText_loop.induct)
  case (1 rnd len i result)
  show ?case
  proof (cases "int i < len")
    case True
    then have "length (generateRandomText_loop rnd len i result) =
               length (generateRandomText_loop rnd len (Suc i)
                 (result @ charAt chars \<lfloor>binary64 (rnd i * of_nat (length chars))\<rfloor>))"
      using loop_step [OF True, of rnd result] by simp
    also have "\<dots> = length (result @ charAt chars \<lfloor>binary64 (rnd i * of_nat (length chars))\<rfloor>) + nat (len - int (Suc i))"
      using "1.IH" [OF True] "1.prems" by blast
    also have "\<dots> = length result + 1 + nat (len - int (Suc i))"
      using charAt_chars_length [of "rnd i"] "1.prems" by simp
    also have "\<dots> = length result + nat (len - int i)"
      using True by simp
    finally show ?thesis .
  next
    case False
    then show ?thesis by (simp add: loop_stop)
  qed
qed

lemma loop_set:
  "set (generateRandomText_loop rnd len i result) \<subseteq> set result \<union> set chars"
proof (induction rnd len i result rule: generateRandomText_loop.induct)
  case (1 rnd len i result)
  show ?case
  proof (cases "int i < len")
    case True
    then have eq: "generateRandomText_loop rnd len i result =
               generateRandomText_loop rnd len (Suc i)
                 (result @ charAt chars \<lfloor>binary64 (rnd i * of_nat (length chars))\<rfloor>)"
      by (rule loop_step)
    show ?thesis
      unfolding eq using "1.IH" [OF True] charAt_subset [of chars] by auto
  next
    case False
    then show ?thesis by (simp add: loop_stop)
  qed
qed

lemma binade_small:
  "1 \<le> x * 2 ^ Suc n \<Longrightarrow> x * 2 ^ Suc n < 2 \<Longrightarrow> n \<le> 1021 \<Longrightarrow> binade x = - 1 - int n"
proof -
  assume lo: "1 \<le> x * 2 ^ Suc n" and hi: "x * 2 ^ Suc n < 2" and n: "n \<le> 1021"
  have "\<not> 1 \<le> x"
  proof
    assume "1 \<le> x"
    moreover have "(2::rat) \<le> 2 ^ Suc n" by simp
    ultimately have "1 * 2 \<le> x * 2 ^ Suc n" by (intro mult_mono) simp_all
    with hi show False by simp
  qed
  moreover have "binade_down (2 * x) (- 1) = - 1 - int n"
    using lo hi n by (intro binade_down_eq) (simp_all add: mult.assoc mult.commute mult.left_commute)
  ultimately show ?thesis by (simp add: binade_def)
qed

lemma binade_large: "2 ^ j \<le> x \<Longrightarrow> x < 2 * 2 ^ j \<Longrightarrow> binade x = int j"
proof -
  assume lo: "2 ^ j \<le> x" and hi: "x < 2 * 2 ^ j"
  have "(1::rat) \<le> 2 ^ j" by simp
  with lo have "1 \<le> x" by linarith
  moreover have "binade_up x 0 \<le> 0 + int j" using hi by (rule binade_up_upper)
  moreover have "0 + int j \<le> binade_up x 0" using lo by (rule binade_up_lower)
  ultimately show ?thesis by (simp add: binade_def)
qed

lemma round_even_numeral [simp]: "round_even (numeral v) = numeral v"
  using round_even_of_int [of "numeral v"] by simp

text \<open>
  Claim C9, as amended. For every \<open>length\<close> (a negative one gives the empty string) and
  whatever doubles in \<open>[0, 1)\<close> \<open>Math.random()\<close> returns, \<open>generateRandomText(length)\<close>
  returns a string of exactly \<open>length\<close> characters, each of them from the alphabet
  \<open>chars\<close>; the alphabet has 67 characters. The index is computed as the code does:
  the binary64 product of the random double and 67, then its floor.
\<close>

theorem generateRandomText_alphabet:
  assumes "\<forall>k. 0 \<le> rnd k \<and> rnd k < 1 \<and> binary64 (rnd k) = rnd k"
  shows "length (generateRandomText rnd len) = nat len \<and>
         set (generateRandomText rnd len) \<subseteq> set chars \<and>
         length chars = 67"
  using loop_length [OF assms, of len 0 "[]"] loop_set [of rnd len 0 "[]"]
  by (simp add: generateRandomText_def chars_def)

text \<open>
  Two runs. With every draw equal to 1/2 the product 33.5 is a double and the index is
  33. With every draw equal to 168044762215317 / 2^51 the exact product lies just below
  5, half way between two doubles; the tie rounds to 5.0, so the code takes index 5
  where the exact product would give 4.
\<close>

theorem generateRandomText_alphabet_witness:
  "(\<forall>k::nat. (0::rat) \<le> 1 / 2 \<and> (1::rat) / 2 < 1 \<and> binary64 (1 / 2) = 1 / 2) \<and>
   generateRandomText (\<lambda>k. 1 / 2) 3 = ''hhh'' \<and>
   binary64 (168044762215317 / 2251799813685248) = 168044762215317 / 2251799813685248 \<and>
   \<lfloor>(168044762215317 / 2251799813685248 :: rat) * 67\<rfloor> = 4 \<and>
   generateRandomText (\<lambda>k. 168044762215317 / 2251799813685248) 1 = ''F''"
proof -
  have l: "length chars = 67" by (simp add: chars_def)
  have b1: "binade (1 / 2) = - 1" by (rule binade_half) simp_all
  have d1: "binary64 (1 / 2) = 1 / 2"
    by (simp add: binary64_def b1 power_int_minus)
  have b2: "binade (67 / 2) = int 5" by (rule binade_large) simp_all
  have p1: "binary64 (67 / 2) = 67 / 2"
    by (simp add: binary64_def b2 power_int_minus)
  have f1: "\<lfloor>(67::rat) / 2\<rfloor> = 33" by (rule floor_unique) simp_all
  have c1: "charAt chars 33 = ''h''" by (simp add: charAt_def chars_def)
  have v1: "generateRandomText (\<lambda>k. 1 / 2) 3 = ''hhh''"
    by (simp add: generateRandomText_def loop_step loop_stop l p1 f1 c1)
  have b3: "binade (168044762215317 / 2251799813685248) = - 1 - int 3"
    by (rule binade_small) simp_all
  have d2: "binary64 (168044762215317 / 2251799813685248) = 168044762215317 / 2251799813685248"
    by (simp add: binary64_def b3 power_int_minus)
  have e2: "\<lfloor>(168044762215317 / 2251799813685248 :: rat) * 67\<rfloor> = 4"
    by (rule floor_unique) simp_all
  have b4: "binade (11258999068426239 / 2251799813685248) = int 2"
    by (rule binade_large) simp_all
  have f2: "\<lfloor>(11258999068426239::rat) / 2\<rfloor> = 5629499534213119"
    by (rule floor_unique) simp_all
  have r2: "round_even (11258999068426239 / 2) = 5629499534213120"
    by (simp add: round_even_def f2)
  have p2: "binary64 (11258999068426239 / 2251799813685248) = 5"
    by (simp add: binary64_def b4 power_int_minus r2)
  have c2: "charAt chars 5 = ''F''" by (simp add: charAt_def chars_def)
  have v2: "generateRandomText (\<lambda>k. 168044762215317 / 2251799813685248) 1 = ''F''"
    by (simp add: generateRandomText_def loop_step loop_stop l p2 c2)
  show ?thesis
    using generateRandomText_alphabet [of "\<lambda>k. 1 / 2" 3] d1 v1 d2 e2 v2 by simp
qed

text \<open>
  The alphabet of line 107 does not have 68 characters: 26 capitals, 26 small letters, 10
  digits and the 5 characters of \<open>" .,!?"\<close> make 67.
\<close>

theorem alphabet_not_68: "length chars \<noteq> 68"
  by (simp add: chars_def)

subsection \<open>The verdict is a strict threshold on heap growth\<close>

text \<open>
  Claim C10. The harness reports a memory leak exactly when the final \<open>heapUsed\<close> less
  the initial \<open>heapUsed\<close> is greater than 52,428,800 bytes, and reports normal growth
  otherwise (a growth of exactly 50 MB is normal). Two runs with the same two samples get
  the same verdict, whatever their trace count, queue size and other memory figures.
\<close>

theorem final_verdict_threshold:
  "(final_verdict st = MemoryLeakDetected) =
     (52428800 < heapUsed (finalMemory st) - heapUsed (initialMemory st)) \<and>
   (final_verdict st = MemoryGrowthNormal) =
     (heapUsed (finalMemory st) - heapUsed (initialMemory st) \<le> 52428800) \<and>
   (\<forall>st'. heapUsed (finalMemory st') = heapUsed (finalMemory st) \<and>
          heapUsed (initialMemory st') = heapUsed (initialMemory st) \<longrightarrow>
          final_verdict st' = final_verdict st)"
  by (auto simp: final_verdict_def heapGrowth_def)


theorem final_verdict_threshold_witness:
  "final_verdict
     \<lparr>initialMemory = \<lparr>rss = 9000, heapTotal = 5000, heapUsed = 1000, external = 0\<rparr>,
      finalMemory = \<lparr>rss = 9000, heapTotal = 5000, heapUsed = 52429800, external = 0\<rparr>,
      afterWaitMemory = \<lparr>rss = 9000, heapTotal = 5000, heapUsed = 1000, external = 0\<rparr>,
      traceCount = 12000, queueSize = 700\<rparr> = MemoryGrowthNormal \<and>
   final_verdict
     \<lparr>initialMemory = \<lparr>rss = 1, heapTotal = 2, heapUsed = 1000, external = 3\<rparr>,
      finalMemory = \<lparr>rss = 4, heapTotal = 5, heapUsed = 52429800, external = 6\<rparr>,
      afterWaitMemory = \<lparr>rss = 7, heapTotal = 8, heapUsed = 99999999, external = 9\<rparr>,
      traceCount = 0, queueSize = 0\<rparr> = MemoryGrowthNormal \<and>
   final_verdict
     \<lparr>initialMemory = \<lparr>rss = 9000, heapTotal = 5000, heapUsed = 1000, external = 0\<rparr>,
      finalMemory = \<lparr>rss = 9000, heapTotal = 5000, heapUsed = 52429801, external = 0\<rparr>,
      afterWaitMemory = \<lparr>rss = 9000, heapTotal = 5000, heapUsed = 1000, external = 0\<rparr>,
      traceCount = 12000, queueSize = 700\<rparr> = MemoryLeakDetected"
  using final_verdict_threshold
    [of "\<lparr>initialMemory = \<lparr>rss = 9000, heapTotal = 5000, heapUsed = 1000, external = 0\<rparr>,
      finalMemory = \<lparr>rss = 9000, heapTotal = 5000, heapUsed = 52429800, external = 0\<rparr>,
      afterWaitMemory = \<lparr>rss = 9000, heapTotal = 5000, heapUsed = 1000, external = 0\<rparr>,
      traceCount = 12000, queueSize = 700\<rparr>"]
    final_verdict_threshold
    [of "\<lparr>initialMemory = \<lparr>rss = 9000, heapTotal = 5000, heapUsed = 1000, external = 0\<rparr>,
      finalMemory = \<lparr>rss = 9000, heapTotal = 5000, heapUsed = 52429801, external = 0\<rparr>,
      afterWaitMemory = \<lparr>rss = 9000, heapTotal = 5000, heapUsed = 1000, external = 0\<rparr>,
      traceCount = 12000, queueSize = 700\<rparr>"]
  by simp

subsection \<open>The producer discards every rejection\<close>

text \<open>
  Claim C7. A firing of the trace producer whose \<open>createRun\<close> call returns a promise
  shows nothing of how the promise settles: a rejection, with whatever error, leaves the
  same state as a fulfilment, writes nothing to the console and leaves no unhandled
  rejection; the trace is counted. Only a failure raised synchronously by the call itself
  (which section 7 of the specification reserves for queue admission) reaches the
  console, and then the trace is not counted.
\<close>

theorem traceInterval_swallows_rejections:
  "traceInterval_tick (Returns (PromiseRejected e)) st = traceInterval_tick (Returns PromiseFulfilled) st \<and>
   console_error (traceInterval_tick (Returns p) st) = console_error st \<and>
   unhandled_rejections (traceInterval_tick (Returns p) st) = unhandled_rejections st \<and>
   traceCount_p (traceInterval_tick (Returns p) st) = traceCount_p st + 1 \<and>
   console_error (traceInterval_tick (Throws e) st) = console_error st @ [e] \<and>
   unhandled_rejections (traceInterval_tick (Throws e) st) = unhandled_rejections st \<and>
   traceCount_p (traceInterval_tick (Throws e) st) = traceCount_p st"
  by (cases p) (simp_all add: traceInterval_tick_def)

section \<open>Properties of the engine\<close>

subsection \<open>Buffer and batcher\<close>

lemmas engine_defs =
  exec_def enqueue_def drain_def on_send_outcome_def requeue_def retry_survivors_def
  total_bytes_def inflight_bytes_def resident_def entries_def init_def sample_config_def sample_record_def
  Let_def

lemma bytes_Nil [simp]: "bytes [] = 0"
  by (simp add: bytes_def)

lemma bytes_Cons [simp]: "bytes (e # es) = size_bytes (fst e) + bytes es"
  by (simp add: bytes_def)

lemma bytes_append [simp]: "bytes (xs @ ys) = bytes xs + bytes ys"
  by (simp add: bytes_def)

lemma shed_oldest_fits: "bytes (shed_oldest room es) \<le> room"
  by (induction es) auto

lemma shed_oldest_suffix: "suffix (shed_oldest room es) es"
  by (induction es) (auto simp: suffix_Cons)

lemma shed_oldest_id: "bytes es \<le> room \<Longrightarrow> shed_oldest room es = es"
  by (cases es) auto

lemma takeUpTo_Cons:
  "\<not> (n = 0 \<or> b < size_bytes (fst e)) \<Longrightarrow>
   takeUpTo n b (e # es) =
     (e # fst (takeUpTo (n - 1) (b - size_bytes (fst e)) es),
      snd (takeUpTo (n - 1) (b - size_bytes (fst e)) es))"
  by (simp split: prod.splits)

lemma takeUpTo_stop:
  "n = 0 \<or> b < size_bytes (fst e) \<Longrightarrow> takeUpTo n b (e # es) = ([], e # es)"
  by auto

lemma takeUpTo_append: "fst (takeUpTo n b buf) @ snd (takeUpTo n b buf) = buf"
proof (induction buf arbitrary: n b)
  case Nil
  then show ?case by simp
next
  case (Cons e es)
  show ?case
  proof (cases "n = 0 \<or> b < size_bytes (fst e)")
    case True
    show ?thesis unfolding takeUpTo_stop [OF True] by simp
  next
    case False
    show ?thesis unfolding takeUpTo_Cons [OF False] by (simp add: Cons.IH)
  qed
qed

lemma takeUpTo_count: "length (fst (takeUpTo n b buf)) \<le> n"
proof (induction buf arbitrary: n b)
  case Nil
  then show ?case by simp
next
  case (Cons e es)
  show ?case
  proof (cases "n = 0 \<or> b < size_bytes (fst e)")
    case True
    show ?thesis unfolding takeUpTo_stop [OF True] by simp
  next
    case False
    have "length (fst (takeUpTo (n - 1) (b - size_bytes (fst e)) es)) \<le> n - 1"
      by (rule Cons.IH)
    with False show ?thesis unfolding takeUpTo_Cons [OF False] by auto
  qed
qed

lemma takeUpTo_bytes: "bytes (fst (takeUpTo n b buf)) \<le> b"
proof (induction buf arbitrary: n b)
  case Nil
  then show ?case by simp
next
  case (Cons e es)
  show ?case
  proof (cases "n = 0 \<or> b < size_bytes (fst e)")
    case True
    show ?thesis unfolding takeUpTo_stop [OF True] by simp
  next
    case False
    have "bytes (fst (takeUpTo (n - 1) (b - size_bytes (fst e)) es)) \<le> b - size_bytes (fst e)"
      by (rule Cons.IH)
    with False show ?thesis unfolding takeUpTo_Cons [OF False] by auto
  qed
qed

declare form_batches.simps [simp del]

lemma form_batches_stop:
  "takeUpTo n b buf = ([], left) \<Longrightarrow> form_batches n b buf = ([], left)"
  by (subst form_batches.simps) simp

lemma form_batches_step:
  "takeUpTo n b buf = (e # taken, left) \<Longrightarrow>
   form_batches n b buf =
     ((e # taken) # fst (form_batches n b left), snd (form_batches n b left))"
  by (subst form_batches.simps) (simp split: prod.splits)


lemma form_batches_bounds:
  "batch \<in> set (fst (form_batches n b buf)) \<Longrightarrow>
   batch \<noteq> [] \<and> length batch \<le> n \<and> bytes batch \<le> b"
proof (induction n b buf rule: form_batches.induct)
  case (1 n b buf)
  obtain taken left where t: "takeUpTo n b buf = (taken, left)" by (cases "takeUpTo n b buf")
  show ?case
  proof (cases taken)
    case Nil
    with t "1.prems" show ?thesis by (simp add: form_batches_stop)
  next
    case (Cons e taken')
    have "form_batches n b buf =
            ((e # taken') # fst (form_batches n b left), snd (form_batches n b left))"
      using t Cons by (simp add: form_batches_step)
    with "1.prems" Cons
    have "batch = taken \<or> batch \<in> set (fst (form_batches n b left))"
      by auto
    then show ?thesis
    proof
      assume "batch = taken"
      then show ?thesis
        using takeUpTo_count [where n = n and b = b and buf = buf]
          takeUpTo_bytes [where n = n and b = b and buf = buf] t Cons by simp
    next
      assume "batch \<in> set (fst (form_batches n b left))"
      then show ?thesis
        using "1.IH" [of taken left e taken'] t Cons by simp
    qed
  qed
qed


lemma exec_Nil [simp]: "exec cfg [] s = s"
  by (simp add: exec_def)

lemma exec_snoc [simp]: "exec cfg (evs @ [ev]) s = step cfg (exec cfg evs s) ev"
  by (simp add: exec_def)

lemma exec_append: "exec cfg (evs @ evs') s = exec cfg evs' (exec cfg evs s)"
  by (simp add: exec_def)

lemma inflight_split:
  assumes "i < length bs"
  shows "bytes (concat bs) = bytes (bs ! i) + bytes (concat (take i bs @ drop (Suc i) bs))"
proof -
  have "concat bs = concat (take i bs @ bs ! i # drop (Suc i) bs)"
    using id_take_nth_drop [OF assms] by simp
  then show ?thesis by simp
qed

lemma enqueue_total:
  assumes "total_bytes s \<le> maxQueueBytes cfg"
  shows "total_bytes (snd (enqueue cfg r s)) \<le> maxQueueBytes cfg"
proof (cases "total_bytes s + size_bytes r \<le> maxQueueBytes cfg")
  case True
  then show ?thesis by (simp add: enqueue_def total_bytes_def inflight_bytes_def)
next
  case False
  show ?thesis
  proof (cases "queueFullPolicy cfg")
    case PolicyReject
    with False assms show ?thesis by (simp add: enqueue_def)
  next
    case PolicyBlock
    with False assms show ?thesis by (simp add: enqueue_def)
  next
    case PolicyDropOldest
    show ?thesis
    proof (cases "inflight_bytes s + size_bytes r \<le> maxQueueBytes cfg")
      case fits: True
      have "bytes (shed_oldest (maxQueueBytes cfg - inflight_bytes s - size_bytes r) (buffer s))
              \<le> maxQueueBytes cfg - inflight_bytes s - size_bytes r"
        by (rule shed_oldest_fits)
      with fits False PolicyDropOldest show ?thesis
        by (simp add: enqueue_def total_bytes_def inflight_bytes_def)
    next
      case False
      with \<open>\<not> total_bytes s + size_bytes r \<le> maxQueueBytes cfg\<close> PolicyDropOldest assms
      show ?thesis by (simp add: enqueue_def)
    qed
  qed
qed

lemma drain_total: "total_bytes (drain cfg s) = total_bytes s"
proof -
  obtain taken left where t: "takeUpTo (maxBatchItems cfg) (maxBatchBytes cfg) (buffer s) = (taken, left)"
    by (cases "takeUpTo (maxBatchItems cfg) (maxBatchBytes cfg) (buffer s)")
  have "taken @ left = buffer s"
    using takeUpTo_append [of "maxBatchItems cfg" "maxBatchBytes cfg" "buffer s"] t by simp
  then have "bytes (buffer s) = bytes taken + bytes left"
    by (metis bytes_append)
  with t show ?thesis
    by (cases taken) (simp_all add: drain_def total_bytes_def inflight_bytes_def)
qed

lemma on_send_outcome_total:
  assumes "total_bytes s \<le> maxQueueBytes cfg"
  shows "total_bytes (on_send_outcome cfg i outcome s) \<le> maxQueueBytes cfg"
proof (cases "length (inflight s) \<le> i")
  case True
  with assms show ?thesis by (simp add: on_send_outcome_def)
next
  case False
  define others where "others = take i (inflight s) @ drop (Suc i) (inflight s)"
  have split: "bytes (concat (inflight s)) = bytes (inflight s ! i) + bytes (concat others)"
    unfolding others_def using False by (intro inflight_split) simp
  have le: "bytes (concat others) \<le> maxQueueBytes cfg"
    using assms split by (simp add: total_bytes_def inflight_bytes_def)
  show ?thesis
  proof (cases outcome)
    case Success
    with False assms split show ?thesis
      by (simp add: on_send_outcome_def Let_def total_bytes_def inflight_bytes_def others_def)
  next
    case (FatalFailure reason)
    with False assms split show ?thesis
      by (simp add: on_send_outcome_def Let_def total_bytes_def inflight_bytes_def others_def)
  next
    case (RetryableFailure reason)
    have "bytes (requeue cfg (maxQueueBytes cfg - bytes (concat others)) (inflight s ! i) (buffer s))
            \<le> maxQueueBytes cfg - bytes (concat others)"
      unfolding requeue_def by (rule shed_oldest_fits)
    with le RetryableFailure False show ?thesis
      by (simp add: on_send_outcome_def Let_def total_bytes_def inflight_bytes_def others_def)
  qed
qed

lemma step_total:
  "total_bytes s \<le> maxQueueBytes cfg \<Longrightarrow> total_bytes (step cfg s ev) \<le> maxQueueBytes cfg"
  by (cases ev) (simp_all add: enqueue_total drain_total on_send_outcome_total)

lemma exec_total:
  "total_bytes s \<le> maxQueueBytes cfg \<Longrightarrow> total_bytes (exec cfg evs s) \<le> maxQueueBytes cfg"
  by (induction evs rule: rev_induct) (simp_all add: step_total)

lemma init_total: "total_bytes init = 0"
  by (simp add: init_def total_bytes_def inflight_bytes_def)


lemma suffix_mset: "suffix xs ys \<Longrightarrow> mset (map f xs) \<subseteq># mset (map f ys)"
  by (auto simp: suffix_def)

lemma distinct_sub:
  "mset xs \<subseteq># mset ys \<Longrightarrow> distinct ys \<Longrightarrow> distinct xs"
proof (induction xs arbitrary: ys)
  case Nil
  then show ?case by simp
next
  case (Cons x xs)
  have sub: "mset xs \<subseteq># mset (remove1 x ys)"
    using Cons.prems(1) by (simp add: insert_subset_eq_iff)
  have d: "distinct (remove1 x ys)"
    using Cons.prems(2) by simp
  have dx: "distinct xs"
    using Cons.IH [OF sub d] .
  have "x \<notin> set xs"
  proof
    assume "x \<in> set xs"
    then have "x \<in># mset xs" by simp
    with sub have "x \<in># mset (remove1 x ys)" by (rule mset_subset_eqD)
    then have "x \<in> set (remove1 x ys)" by (simp only: set_mset_mset)
    with Cons.prems(2) show False by simp
  qed
  with dx show ?case by simp
qed


lemma enqueued_append: "enqueued (evs @ evs') = enqueued evs @ enqueued evs'"
  by (induction evs rule: enqueued.induct) simp_all

lemma survivors_fst:
  "map fst (retry_survivors cfg batch) =
   map fst (filter (\<lambda>(r, k). k < maxRetriesPerRecord cfg) batch)"
  by (induction batch) (auto simp: retry_survivors_def)

lemma survivors_mset: "mset (map fst (retry_survivors cfg batch)) \<subseteq># mset (map fst batch)"
proof -
  have "mset (filter (\<lambda>(r, k). k < maxRetriesPerRecord cfg) batch) \<subseteq># mset batch"
    by simp
  then have "image_mset fst (mset (filter (\<lambda>(r, k). k < maxRetriesPerRecord cfg) batch))
               \<subseteq># image_mset fst (mset batch)"
    by (rule image_mset_subseteq_mono)
  then show ?thesis by (simp add: survivors_fst)
qed

lemma enqueue_resident:
  "mset (resident (snd (enqueue cfg r s))) \<subseteq># add_mset r (mset (resident s))"
proof (cases "total_bytes s + size_bytes r \<le> maxQueueBytes cfg")
  case True
  then show ?thesis by (simp add: enqueue_def resident_def)
next
  case False
  show ?thesis
  proof (cases "queueFullPolicy cfg = PolicyDropOldest \<and>
                inflight_bytes s + size_bytes r \<le> maxQueueBytes cfg")
    case True
    have "mset (map fst (shed_oldest (maxQueueBytes cfg - inflight_bytes s - size_bytes r) (buffer s)))
            \<subseteq># mset (map fst (buffer s))"
      by (rule suffix_mset [OF shed_oldest_suffix])
    with True False show ?thesis
      by (simp add: enqueue_def resident_def)
  next
    case unchanged: False
    with False have "snd (enqueue cfg r s) = s"
      by (cases "queueFullPolicy cfg") (auto simp: enqueue_def)
    then show ?thesis by simp
  qed
qed

lemma drain_resident: "mset (resident (drain cfg s)) = mset (resident s)"
proof -
  obtain taken left where t: "takeUpTo (maxBatchItems cfg) (maxBatchBytes cfg) (buffer s) = (taken, left)"
    by (cases "takeUpTo (maxBatchItems cfg) (maxBatchBytes cfg) (buffer s)")
  have app: "buffer s = taken @ left"
    using takeUpTo_append [of "maxBatchItems cfg" "maxBatchBytes cfg" "buffer s"] t by simp
  show ?thesis
    using t app by (cases taken) (simp_all add: drain_def resident_def)
qed

lemma concat_split:
  assumes "i < length bs"
  shows "mset (map f (concat bs)) =
         mset (map f (bs ! i)) + mset (map f (concat (take i bs @ drop (Suc i) bs)))"
proof -
  have "concat bs = concat (take i bs @ bs ! i # drop (Suc i) bs)"
    using id_take_nth_drop [OF assms] by simp
  also have "\<dots> = concat (take i bs) @ bs ! i @ concat (drop (Suc i) bs)"
    by simp
  finally have "mset (map f (concat bs)) =
                mset (map f (concat (take i bs) @ bs ! i @ concat (drop (Suc i) bs)))"
    by (rule arg_cong)
  then show ?thesis by simp
qed

lemma outcome_resident:
  "mset (resident (on_send_outcome cfg i outcome s)) \<subseteq># mset (resident s)"
proof (cases "length (inflight s) \<le> i")
  case True
  then show ?thesis by (simp add: on_send_outcome_def)
next
  case False
  define others where "others = take i (inflight s) @ drop (Suc i) (inflight s)"
  define batch where "batch = inflight s ! i"
  have split: "mset (map fst (concat (inflight s))) =
               mset (map fst batch) + mset (map fst (concat others))"
    unfolding others_def batch_def using False by (intro concat_split) simp
  have before_eq: "mset (resident s) =
             mset (map fst batch) + (mset (map fst (concat others)) + mset (map fst (buffer s)))"
    using split by (simp add: resident_def)
  have less: "mset (map fst (concat others)) + mset (map fst (buffer s)) \<subseteq># mset (resident s)"
    unfolding before_eq by (rule mset_subset_eq_add_right)
  show ?thesis
  proof (cases outcome)
    case Success
    have "resident (on_send_outcome cfg i outcome s) = map fst (concat others @ buffer s)"
      using False Success by (simp add: on_send_outcome_def Let_def resident_def others_def)
    with less show ?thesis by simp
  next
    case (FatalFailure reason)
    have "resident (on_send_outcome cfg i outcome s) = map fst (concat others @ buffer s)"
      using False FatalFailure by (simp add: on_send_outcome_def Let_def resident_def others_def)
    with less show ?thesis by simp
  next
    case (RetryableFailure reason)
    define room where "room = maxQueueBytes cfg - bytes (concat others)"
    have after_eq: "resident (on_send_outcome cfg i outcome s) =
               map fst (concat others @ requeue cfg room batch (buffer s))"
      using False RetryableFailure
      by (simp add: on_send_outcome_def Let_def resident_def others_def batch_def room_def)
    have "mset (map fst (requeue cfg room batch (buffer s)))
            \<subseteq># mset (map fst (retry_survivors cfg batch @ buffer s))"
      unfolding requeue_def by (rule suffix_mset [OF shed_oldest_suffix])
    also have "\<dots> = mset (map fst (retry_survivors cfg batch)) + mset (map fst (buffer s))"
      by simp
    also have "\<dots> \<subseteq># mset (map fst batch) + mset (map fst (buffer s))"
      using survivors_mset [of cfg batch] by (simp only: mset_subset_eq_mono_add_right_cancel)
    finally have returned: "mset (map fst (requeue cfg room batch (buffer s)))
                    \<subseteq># mset (map fst batch) + mset (map fst (buffer s))" .
    have "mset (resident (on_send_outcome cfg i outcome s)) =
          mset (map fst (concat others)) + mset (map fst (requeue cfg room batch (buffer s)))"
      unfolding after_eq by simp
    also have "\<dots> \<subseteq># mset (map fst (concat others)) + (mset (map fst batch) + mset (map fst (buffer s)))"
      using returned by (simp only: mset_subset_eq_mono_add_left_cancel)
    also have "\<dots> = mset (resident s)"
      unfolding before_eq by (simp only: add.left_commute)
    finally show ?thesis .
  qed
qed

lemma step_resident:
  "mset (resident (step cfg s ev)) \<subseteq># mset (resident s) + mset (enqueued [ev])"
proof (cases ev)
  case (Enqueue r)
  then show ?thesis using enqueue_resident [of cfg r s] by simp
next
  case Drain
  then show ?thesis by (simp add: drain_resident)
next
  case (Complete i outcome)
  then show ?thesis using outcome_resident [of cfg i outcome s] by simp
qed

lemma exec_resident:
  "mset (resident (exec cfg evs s)) \<subseteq># mset (resident s) + mset (enqueued evs)"
proof (induction evs rule: rev_induct)
  case Nil
  then show ?case by simp
next
  case (snoc ev evs)
  have "mset (resident (exec cfg (evs @ [ev]) s))
          \<subseteq># mset (resident (exec cfg evs s)) + mset (enqueued [ev])"
    using step_resident [of cfg "exec cfg evs s" ev] by simp
  also have "\<dots> \<subseteq># (mset (resident s) + mset (enqueued evs)) + mset (enqueued [ev])"
    using snoc.IH by (simp only: mset_subset_eq_mono_add_right_cancel)
  finally show ?case by (simp add: enqueued_append add.assoc)
qed

lemma init_resident: "resident init = []"
  by (simp add: init_def resident_def)


lemma shed_oldest_split:
  "\<exists>dropped. es = dropped @ shed_oldest room es"
  using shed_oldest_suffix [of room es] by (auto simp: suffix_def)

subsection \<open>The byte cap\<close>

text \<open>
  Claim C1. In every state the engine reaches from the empty one, by whatever sequence of
  enqueues, drains and send outcomes, the bytes of the records in the Record Buffer plus
  those of all in-flight Batches do not exceed \<open>maxQueueBytes\<close>. An enqueue that fits is
  accepted and appended. One that would exceed the cap is rejected with QueueFull under
  the reject policy, does not return under the block policy, and under dropOldest
  displaces one or more of the oldest buffered records and is accepted; when the in-flight
  Batches alone leave no room for the record, dropOldest rejects it as well.
\<close>

theorem byte_cap_never_exceeded:
  "(let s = exec cfg evs init in
      total_bytes s \<le> maxQueueBytes cfg \<and>
      (total_bytes s + size_bytes r \<le> maxQueueBytes cfg \<longrightarrow>
         enqueue cfg r s = (Some Accepted, s\<lparr>buffer := buffer s @ [(r, 0)]\<rparr>)) \<and>
      (maxQueueBytes cfg < total_bytes s + size_bytes r \<longrightarrow>
         (case queueFullPolicy cfg of
            PolicyReject \<Rightarrow> enqueue cfg r s = (Some (Rejected QueueFull), s)
          | PolicyBlock \<Rightarrow> enqueue cfg r s = (None, s)
          | PolicyDropOldest \<Rightarrow>
              (if inflight_bytes s + size_bytes r \<le> maxQueueBytes cfg
               then \<exists>dropped kept. dropped \<noteq> [] \<and> buffer s = dropped @ kept \<and>
                      enqueue cfg r s = (Some Accepted, s\<lparr>buffer := kept @ [(r, 0)]\<rparr>)
               else enqueue cfg r s = (Some (Rejected QueueFull), s)))))"
proof -
  define s where "s = exec cfg evs init"
  have inv: "total_bytes s \<le> maxQueueBytes cfg"
    unfolding s_def by (rule exec_total) (simp add: init_total)
  have fits: "total_bytes s + size_bytes r \<le> maxQueueBytes cfg \<Longrightarrow>
              enqueue cfg r s = (Some Accepted, s\<lparr>buffer := buffer s @ [(r, 0)]\<rparr>)"
    by (simp add: enqueue_def)
  have full: "case queueFullPolicy cfg of
            PolicyReject \<Rightarrow> enqueue cfg r s = (Some (Rejected QueueFull), s)
          | PolicyBlock \<Rightarrow> enqueue cfg r s = (None, s)
          | PolicyDropOldest \<Rightarrow>
              (if inflight_bytes s + size_bytes r \<le> maxQueueBytes cfg
               then \<exists>dropped kept. dropped \<noteq> [] \<and> buffer s = dropped @ kept \<and>
                      enqueue cfg r s = (Some Accepted, s\<lparr>buffer := kept @ [(r, 0)]\<rparr>)
               else enqueue cfg r s = (Some (Rejected QueueFull), s))"
    if over: "maxQueueBytes cfg < total_bytes s + size_bytes r"
  proof (cases "queueFullPolicy cfg")
    case PolicyReject
    with over show ?thesis by (simp add: enqueue_def)
  next
    case PolicyBlock
    with over show ?thesis by (simp add: enqueue_def)
  next
    case PolicyDropOldest
    show ?thesis
    proof (cases "inflight_bytes s + size_bytes r \<le> maxQueueBytes cfg")
      case False
      with over PolicyDropOldest show ?thesis by (simp add: enqueue_def)
    next
      case True
      define room where "room = maxQueueBytes cfg - inflight_bytes s - size_bytes r"
      obtain dropped where d: "buffer s = dropped @ shed_oldest room (buffer s)"
        using shed_oldest_split by blast
      have "dropped \<noteq> []"
      proof
        assume "dropped = []"
        with d have "shed_oldest room (buffer s) = buffer s" by simp
        then have "bytes (buffer s) \<le> room"
          using shed_oldest_fits [of room "buffer s"] by simp
        with True over show False
          by (simp add: room_def total_bytes_def)
      qed
      moreover have "enqueue cfg r s =
          (Some Accepted, s\<lparr>buffer := shed_oldest room (buffer s) @ [(r, 0)]\<rparr>)"
        using over True PolicyDropOldest by (simp add: enqueue_def room_def)
      ultimately have "\<exists>dropped kept. dropped \<noteq> [] \<and> buffer s = dropped @ kept \<and>
                      enqueue cfg r s = (Some Accepted, s\<lparr>buffer := kept @ [(r, 0)]\<rparr>)"
        using d by blast
      with True PolicyDropOldest show ?thesis by simp
    qed
  qed
  show ?thesis
    unfolding Let_def s_def [symmetric] using inv fits full by blast
qed


theorem byte_cap_never_exceeded_witness:
  "total_bytes (exec (sample_config PolicyDropOldest)
      [Enqueue (sample_record 1 6), Enqueue (sample_record 2 4)] init) = 10 \<and>
   enqueue (sample_config PolicyDropOldest) (sample_record 3 5)
     (exec (sample_config PolicyDropOldest)
        [Enqueue (sample_record 1 6), Enqueue (sample_record 2 4)] init) =
     (Some Accepted,
      \<lparr>buffer = [(sample_record 2 4, 0), (sample_record 3 5, 0)], inflight = [],
       consecutiveFailures = 0, sink = []\<rparr>) \<and>
   enqueue (sample_config PolicyReject) (sample_record 3 5)
     (exec (sample_config PolicyReject)
        [Enqueue (sample_record 1 6), Enqueue (sample_record 2 4)] init) =
     (Some (Rejected QueueFull),
      \<lparr>buffer = [(sample_record 1 6, 0), (sample_record 2 4, 0)], inflight = [],
       consecutiveFailures = 0, sink = []\<rparr>) \<and>
   enqueue (sample_config PolicyDropOldest) (sample_record 3 5)
     (exec (sample_config PolicyDropOldest)
        [Enqueue (sample_record 1 6), Drain, Enqueue (sample_record 2 4)] init) =
     (Some (Rejected QueueFull),
      \<lparr>buffer = [(sample_record 2 4, 0)], inflight = [[(sample_record 1 6, 0)]],
       consecutiveFailures = 0, sink = []\<rparr>)"
  using byte_cap_never_exceeded [of "sample_config PolicyDropOldest"
      "[Enqueue (sample_record 1 6), Enqueue (sample_record 2 4)]" "sample_record 3 5"]
  by (simp add: engine_defs)


text \<open>
  The scenario of section 8 of the specification, run on the model: 1000 records of 1 KB
  each enqueued under dropOldest with a cap of 500 KB leave exactly the most recent 500
  in the buffer, 500 KB in all.
\<close>

lemma bytes_uniform:
  "\<forall>r\<in>set rs. size_bytes r = c \<Longrightarrow> bytes (map (\<lambda>r. (r, 0)) rs) = length rs * c"
  by (induction rs) simp_all

lemma shed_oldest_uniform:
  assumes "\<forall>r\<in>set rs. size_bytes r = c" "0 < c" "length rs = Suc k"
  shows "shed_oldest (k * c) (map (\<lambda>r. (r, 0)) rs) = map (\<lambda>r. (r, 0)) (tl rs)"
proof -
  obtain r rest where rs: "rs = r # rest" using assms(3) by (cases rs) auto
  have len: "length rest = k" using assms(3) rs by simp
  have b: "bytes (map (\<lambda>r. (r, 0)) rest) = k * c"
    using bytes_uniform [of rest c] assms(1) rs len by simp
  have "shed_oldest (k * c) (map (\<lambda>r. (r, 0)) rest) = map (\<lambda>r. (r, 0)) rest"
    by (rule shed_oldest_id) (simp add: b)
  moreover have "\<not> bytes (map (\<lambda>r. (r, 0)) (r # rest)) \<le> k * c"
    using b assms(1,2) rs by simp
  ultimately show ?thesis using rs by simp
qed

lemma dropOldest_uniform:
  assumes pol: "queueFullPolicy cfg = PolicyDropOldest" and cap: "maxQueueBytes cfg = m * c"
    and c: "0 < c" and sz: "\<forall>r\<in>set rs. size_bytes r = c"
  shows "exec cfg (map Enqueue rs) init =
         \<lparr>buffer = map (\<lambda>r. (r, 0)) (drop (length rs - m) rs), inflight = [],
          consecutiveFailures = 0, sink = []\<rparr>"
  using sz
proof (induction rs rule: rev_induct)
  case Nil
  then show ?case by (simp add: init_def)
next
  case (snoc r rs)
  define n where "n = length rs"
  define kept where "kept = drop (n - m) rs"
  have st: "exec cfg (map Enqueue rs) init =
         \<lparr>buffer = map (\<lambda>r. (r, 0)) kept, inflight = [], consecutiveFailures = 0, sink = []\<rparr>"
    using snoc unfolding kept_def n_def by simp
  have ksz: "\<forall>r\<in>set kept. size_bytes r = c"
    using snoc.prems unfolding kept_def by (auto dest: in_set_dropD)
  have klen: "length kept = min n m" unfolding kept_def n_def by auto
  have r: "size_bytes r = c" using snoc.prems by simp
  have tot: "total_bytes (exec cfg (map Enqueue rs) init) = min n m * c"
    using bytes_uniform [OF ksz] klen by (simp add: st total_bytes_def inflight_bytes_def)
  have infl: "inflight_bytes (exec cfg (map Enqueue rs) init) = 0"
    by (simp add: st inflight_bytes_def)
  show ?case
  proof (cases "n < m")
    case True
    then have "min n m * c + c \<le> m * c"
      using mult_le_mono1 [of "Suc n" m c] by simp
    then have "snd (enqueue cfg r (exec cfg (map Enqueue rs) init)) =
               \<lparr>buffer = map (\<lambda>r. (r, 0)) kept @ [(r, 0)], inflight = [],
                consecutiveFailures = 0, sink = []\<rparr>"
      using tot r cap by (simp add: enqueue_def st)
    moreover have "drop (length (rs @ [r]) - m) (rs @ [r]) = kept @ [r]"
      using True unfolding kept_def n_def by simp
    ultimately show ?thesis by simp
  next
    case False
    then have over: "\<not> total_bytes (exec cfg (map Enqueue rs) init) + size_bytes r \<le> maxQueueBytes cfg"
      using tot r cap c by simp
    show ?thesis
    proof (cases m)
      case 0
      then have "\<not> inflight_bytes (exec cfg (map Enqueue rs) init) + size_bytes r \<le> maxQueueBytes cfg"
        using infl r cap c by simp
      with over pol have "snd (enqueue cfg r (exec cfg (map Enqueue rs) init)) =
                          exec cfg (map Enqueue rs) init"
        by (simp add: enqueue_def)
      moreover have "kept = []" "drop (length (rs @ [r]) - m) (rs @ [r]) = []"
        using 0 unfolding kept_def n_def by simp_all
      ultimately show ?thesis using st by simp
    next
      case (Suc k)
      have fits: "inflight_bytes (exec cfg (map Enqueue rs) init) + size_bytes r \<le> maxQueueBytes cfg"
        using infl r cap Suc by simp
      have room: "maxQueueBytes cfg - inflight_bytes (exec cfg (map Enqueue rs) init) - size_bytes r = k * c"
        using infl r cap Suc by simp
      have "length kept = Suc k" using klen False Suc by simp
      then have shed: "shed_oldest (k * c) (map (\<lambda>r. (r, 0)) kept) = map (\<lambda>r. (r, 0)) (tl kept)"
        using ksz c by (intro shed_oldest_uniform) simp_all
      have "snd (enqueue cfg r (exec cfg (map Enqueue rs) init)) =
               \<lparr>buffer = map (\<lambda>r. (r, 0)) (tl kept) @ [(r, 0)], inflight = [],
                consecutiveFailures = 0, sink = []\<rparr>"
        using over fits pol room shed by (simp add: enqueue_def st)
      moreover have "drop (length (rs @ [r]) - m) (rs @ [r]) = tl kept @ [r]"
      proof -
        have j: "length rs - k = Suc (length rs - Suc k)"
          using False Suc unfolding n_def by simp
        have "drop (length rs - k) rs = tl (drop (length rs - Suc k) rs)"
          unfolding j by (simp add: drop_Suc tl_drop)
        then show ?thesis
          using False Suc unfolding kept_def n_def by simp
      qed
      ultimately show ?thesis by simp
    qed
  qed
qed


lemma dropOldest_scenario:
  assumes "queueFullPolicy cfg = PolicyDropOldest" "maxQueueBytes cfg = 500 * 1024"
  shows "buffer (exec cfg (map (\<lambda>n. Enqueue (sample_record n 1024)) [0..<1000]) init) =
           map (\<lambda>n. (sample_record n 1024, 0)) [500..<1000]"
    and "total_bytes (exec cfg (map (\<lambda>n. Enqueue (sample_record n 1024)) [0..<1000]) init) =
           500 * 1024"
proof -
  define rs where "rs = map (\<lambda>n. sample_record n 1024) [0..<1000]"
  have sz: "\<forall>r\<in>set rs. size_bytes r = 1024"
    unfolding rs_def by (auto simp: sample_record_def)
  have evs: "map (\<lambda>n. Enqueue (sample_record n 1024)) [0..<1000] = map Enqueue rs"
    unfolding rs_def by simp
  have kept: "drop (length rs - 500) rs = map (\<lambda>n. sample_record n 1024) [500..<1000]"
    unfolding rs_def by (simp add: drop_map)
  have st: "exec cfg (map Enqueue rs) init =
         \<lparr>buffer = map (\<lambda>r. (r, 0)) (drop (length rs - 500) rs), inflight = [],
          consecutiveFailures = 0, sink = []\<rparr>"
    using assms sz by (intro dropOldest_uniform [where c = 1024]) simp_all
  show "buffer (exec cfg (map (\<lambda>n. Enqueue (sample_record n 1024)) [0..<1000]) init) =
           map (\<lambda>n. (sample_record n 1024, 0)) [500..<1000]"
    unfolding evs st kept by simp
  have "bytes (map (\<lambda>r. (r, 0)) (drop (length rs - 500) rs)) = length (drop (length rs - 500) rs) * 1024"
    using sz by (intro bytes_uniform) (auto dest: in_set_dropD)
  then show "total_bytes (exec cfg (map (\<lambda>n. Enqueue (sample_record n 1024)) [0..<1000]) init) =
           500 * 1024"
    unfolding evs st by (simp add: total_bytes_def inflight_bytes_def rs_def)
qed

subsection \<open>No record in two batches\<close>

lemma distinct_concat_nth:
  "distinct (concat bs) \<Longrightarrow> i < j \<Longrightarrow> j < length bs \<Longrightarrow> set (bs ! i) \<inter> set (bs ! j) = {}"
proof (induction bs arbitrary: i j)
  case Nil
  then show ?case by simp
next
  case (Cons b bs)
  obtain j' where j: "j = Suc j'" using Cons.prems(2) by (cases j) auto
  show ?case
  proof (cases i)
    case 0
    have "bs ! j' \<in> set bs" using Cons.prems(3) j by simp
    then have "set (bs ! j') \<subseteq> set (concat bs)" by auto
    with Cons.prems(1) 0 j show ?thesis by auto
  next
    case (Suc i')
    with Cons.prems j have "set (bs ! i') \<inter> set (bs ! j') = {}"
      by (intro Cons.IH) auto
    with Suc j show ?thesis by simp
  qed
qed

lemma exec_distinct:
  assumes "distinct (enqueued evs)"
  shows "distinct (resident (exec cfg evs init))"
proof -
  have "mset (resident (exec cfg evs init)) \<subseteq># mset (enqueued evs)"
    using exec_resident [of cfg evs init] by (simp add: init_resident)
  then show ?thesis using assms by (rule distinct_sub)
qed

text \<open>
  Claim C3. In every reachable state, each record the producers enqueued is held at most
  once among the in-flight Batches and the buffer taken together: the records held form a
  sub-multiset of the records enqueued. When the enqueued records are pairwise different,
  no record occurs twice in what the engine holds, and any two in-flight Batches have no
  record in common.
\<close>

theorem record_in_at_most_one_batch:
  "(let s = exec cfg evs init in
      mset (resident s) \<subseteq># mset (enqueued evs) \<and>
      (distinct (enqueued evs) \<longrightarrow>
         distinct (resident s) \<and>
         (\<forall>i j. i < j \<and> j < length (inflight s) \<longrightarrow>
            fst ` set (inflight s ! i) \<inter> fst ` set (inflight s ! j) = {})))"
proof -
  define s where "s = exec cfg evs init"
  have sub: "mset (resident s) \<subseteq># mset (enqueued evs)"
    unfolding s_def using exec_resident [of cfg evs init] by (simp add: init_resident)
  have batches: "fst ` set (inflight s ! i) \<inter> fst ` set (inflight s ! j) = {}"
    if d: "distinct (resident s)" and ij: "i < j" "j < length (inflight s)" for i j
  proof -
    have "distinct (concat (map (map fst) (inflight s)))"
      using d by (simp add: resident_def map_concat)
    then have "set (map (map fst) (inflight s) ! i) \<inter> set (map (map fst) (inflight s) ! j) = {}"
      using ij by (intro distinct_concat_nth) simp_all
    with ij show ?thesis by simp
  qed
  have "distinct (enqueued evs) \<Longrightarrow> distinct (resident s)"
    unfolding s_def by (rule exec_distinct)
  with sub batches show ?thesis
    unfolding Let_def s_def [symmetric] by blast
qed

theorem record_in_at_most_one_batch_witness:
  "distinct (enqueued [Enqueue (sample_record 1 6), Enqueue (sample_record 2 4), Drain, Drain, Drain]) \<and>
   inflight (exec (sample_config PolicyReject)
      [Enqueue (sample_record 1 6), Enqueue (sample_record 2 4), Drain, Drain, Drain] init) =
     [[(sample_record 1 6, 0)], [(sample_record 2 4, 0)]] \<and>
   distinct (resident (exec (sample_config PolicyReject)
      [Enqueue (sample_record 1 6), Enqueue (sample_record 2 4), Drain, Drain, Drain] init))"
  using record_in_at_most_one_batch [of "sample_config PolicyReject"
      "[Enqueue (sample_record 1 6), Enqueue (sample_record 2 4), Drain, Drain, Drain]"]
  by (simp add: engine_defs)

subsection \<open>FIFO order\<close>










text \<open>
  Completion order is not dispatch order: with two Batches in flight, the second may
  complete while the first is still in flight.
\<close>

lemma completion_out_of_order:
  "inflight (exec (sample_config PolicyReject)
      [Enqueue (sample_record 1 6), Enqueue (sample_record 2 4), Drain, Drain, Complete 1 Success] init) =
   [[(sample_record 1 6, 0)]]"
  by (simp add: engine_defs)

subsection \<open>Cancel is idempotent\<close>

lemma finalize_closed: "tag res = Closed \<Longrightarrow> finalize h res = Inr res"
  by (simp add: finalize_def)

lemma apply_handle_ops_closed:
  "tag res = Closed \<Longrightarrow> apply_handle_ops h xs res = Inr res"
proof (induction xs)
  case Nil
  then show ?case by simp
next
  case (Cons x xs)
  then show ?case by (cases x) (simp_all add: cancel_def finalize_closed)
qed

text \<open>
  Claim C2. On a resource in use by a handle's operation, any non-empty sequence of
  completions and cancels of that handle (cancel twice, cancel after completion, and so
  on) raises no error, leaves the resource closed and releases it exactly once. On a
  closed resource every such sequence, and a single cancel, is a no-op. A cancel by
  another operation while the resource is in use is the DualOwnershipViolation error.
\<close>

theorem cancel_idempotent:
  "(tag res = InUse h \<longrightarrow>
      (\<exists>res'. apply_handle_ops h (x # xs) res = Inr res' \<and> tag res' = Closed \<and>
              releases res' = Suc (releases res))) \<and>
   (tag res = Closed \<longrightarrow> apply_handle_ops h xs res = Inr res \<and> cancel h res = Inr res) \<and>
   (tag res = InUse h \<and> h' \<noteq> h \<longrightarrow> cancel h' res = Inl DualOwnershipViolation)"
proof -
  have first: "apply_handle_op h x res = Inr \<lparr>tag = Closed, releases = Suc (releases res)\<rparr>"
    if "tag res = InUse h"
    using that by (cases x) (simp_all add: cancel_def finalize_def)
  have "apply_handle_ops h (x # xs) res = Inr \<lparr>tag = Closed, releases = Suc (releases res)\<rparr>"
    if "tag res = InUse h"
    using first [OF that] apply_handle_ops_closed [of "\<lparr>tag = Closed, releases = Suc (releases res)\<rparr>" h xs]
    by simp
  then show ?thesis
    by (auto simp: apply_handle_ops_closed cancel_def finalize_def)
qed

theorem cancel_idempotent_witness:
  "apply_handle_ops 7 [Cancel, Cancel] \<lparr>tag = InUse 7, releases = 0\<rparr> = Inr \<lparr>tag = Closed, releases = 1\<rparr> \<and>
   apply_handle_ops 7 [OperationCompletes, Cancel] \<lparr>tag = InUse 7, releases = 0\<rparr> = Inr \<lparr>tag = Closed, releases = 1\<rparr> \<and>
   cancel 7 \<lparr>tag = Closed, releases = 1\<rparr> = Inr \<lparr>tag = Closed, releases = 1\<rparr> \<and>
   cancel 8 \<lparr>tag = InUse 7, releases = 0\<rparr> = Inl DualOwnershipViolation"
  using cancel_idempotent [of "\<lparr>tag = InUse 7, releases = 0\<rparr>" 7 Cancel "[Cancel]" 8]
    cancel_idempotent [of "\<lparr>tag = InUse 7, releases = 0\<rparr>" 7 OperationCompletes "[Cancel]" 8]
    cancel_idempotent [of "\<lparr>tag = Closed, releases = 1\<rparr>" 7 Cancel "[]" 8]
  by (simp add: cancel_def finalize_def)


subsection \<open>Requeue after a retryable failure\<close>

lemma survivors_bytes: "bytes (retry_survivors cfg batch) \<le> bytes batch"
  by (induction batch) (auto simp: retry_survivors_def)

lemma outcome_retry_reachable:
  assumes inv: "total_bytes s \<le> maxQueueBytes cfg" and i: "i < length (inflight s)"
  shows "buffer (on_send_outcome cfg i (RetryableFailure why) s) =
           retry_survivors cfg (inflight s ! i) @ buffer s"
    and "inflight (on_send_outcome cfg i (RetryableFailure why) s) =
           take i (inflight s) @ drop (Suc i) (inflight s)"
proof -
  define others where "others = take i (inflight s) @ drop (Suc i) (inflight s)"
  have split: "bytes (concat (inflight s)) = bytes (inflight s ! i) + bytes (concat others)"
    unfolding others_def using i by (rule inflight_split)
  have "bytes (retry_survivors cfg (inflight s ! i) @ buffer s)
          \<le> bytes (inflight s ! i) + bytes (buffer s)"
    using survivors_bytes [of cfg "inflight s ! i"] by simp
  also have "\<dots> \<le> maxQueueBytes cfg - bytes (concat others)"
    using inv split by (simp add: total_bytes_def inflight_bytes_def)
  finally have "requeue cfg (maxQueueBytes cfg - bytes (concat others)) (inflight s ! i) (buffer s) =
                retry_survivors cfg (inflight s ! i) @ buffer s"
    unfolding requeue_def by (rule shed_oldest_id)
  then show "buffer (on_send_outcome cfg i (RetryableFailure why) s) =
           retry_survivors cfg (inflight s ! i) @ buffer s"
    using i by (simp add: on_send_outcome_def Let_def others_def)
  show "inflight (on_send_outcome cfg i (RetryableFailure why) s) =
           take i (inflight s) @ drop (Suc i) (inflight s)"
    using i by (simp add: on_send_outcome_def Let_def)
qed

lemma exhausted_not_survivor:
  assumes "distinct (map fst batch)" "(r, k) \<in> set batch" "maxRetriesPerRecord cfg \<le> k"
  shows "r \<notin> set (map fst (retry_survivors cfg batch))"
proof
  assume "r \<in> set (map fst (retry_survivors cfg batch))"
  then have "r \<in> set (map fst (filter (\<lambda>(r, k). k < maxRetriesPerRecord cfg) batch))"
    by (simp only: survivors_fst)
  then obtain k' where k': "(r, k') \<in> set batch" "k' < maxRetriesPerRecord cfg"
    by auto
  from assms(1) k'(1) assms(2) have "k' = k"
    by (rule eq_key_imp_eq_value)
  with k'(2) assms(3) show False by simp
qed

lemma exhausted_not_resident:
  assumes d: "distinct (resident s)" and inv: "total_bytes s \<le> maxQueueBytes cfg"
    and i: "i < length (inflight s)" and rk: "(r, k) \<in> set (inflight s ! i)"
    and ex: "maxRetriesPerRecord cfg \<le> k"
  shows "r \<notin> set (resident (on_send_outcome cfg i (RetryableFailure why) s))"
proof -
  define others where "others = take i (inflight s) @ drop (Suc i) (inflight s)"
  define batch where "batch = inflight s ! i"
  have split: "mset (map fst (concat (inflight s))) =
               mset (map fst batch) + mset (map fst (concat others))"
    unfolding others_def batch_def using i by (rule concat_split)
  have "mset (map fst batch @ map fst (concat others) @ map fst (buffer s)) = mset (resident s)"
    using split by (simp add: resident_def)
  then have "mset (map fst batch @ map fst (concat others) @ map fst (buffer s)) \<subseteq># mset (resident s)"
    by simp
  then have dl: "distinct (map fst batch @ map fst (concat others) @ map fst (buffer s))"
    using d by (rule distinct_sub)
  have rb: "r \<in> set (map fst batch)"
    using rk unfolding batch_def by force
  have disj: "set (map fst batch) \<inter> set (map fst (concat others) @ map fst (buffer s)) = {}"
    using dl by (simp only: distinct_append)
  have r1: "r \<notin> set (map fst (concat others))"
    using disj rb by (simp only: set_append) blast
  have r2: "r \<notin> set (map fst (buffer s))"
    using disj rb by (simp only: set_append) blast
  have db: "distinct (map fst batch)"
    using dl by (simp only: distinct_append)
  have r3: "r \<notin> set (map fst (retry_survivors cfg batch))"
    using db rk ex unfolding batch_def by (intro exhausted_not_survivor [where k = k])
  have "resident (on_send_outcome cfg i (RetryableFailure why) s) =
        map fst (concat others) @ map fst (retry_survivors cfg batch) @ map fst (buffer s)"
    using outcome_retry_reachable [OF inv i, of why]
    by (simp add: resident_def others_def batch_def)
  with r1 r2 r3 show ?thesis by simp
qed

lemma absent_stays_absent:
  assumes "r \<notin> set (resident s)" "r \<notin> set (enqueued evs)"
  shows "r \<notin> set (resident (exec cfg evs s))"
proof
  assume "r \<in> set (resident (exec cfg evs s))"
  then have "r \<in># mset (resident (exec cfg evs s))" by simp
  with exec_resident [of cfg evs s] have "r \<in># mset (resident s) + mset (enqueued evs)"
    by (rule mset_subset_eqD)
  with assms show False by simp
qed

lemma exec_Cons [simp]: "exec cfg (ev # evs) s = exec cfg evs (step cfg s ev)"
  by (simp add: exec_def)

lemma failures_append:
  "retryable_failures cfg s (evs @ evs') r =
   retryable_failures cfg s evs r + retryable_failures cfg (exec cfg evs s) evs' r"
  by (induction evs arbitrary: s) simp_all

lemma failures_snoc:
  "retryable_failures cfg s (evs @ [ev]) r =
   retryable_failures cfg s evs r + (if failed_send (exec cfg evs s) ev r then 1 else 0)"
  by (simp add: failures_append)

lemma resident_entries: "resident s = map fst (entries s)"
  by (simp add: resident_def entries_def)

lemma enqueue_entries:
  "e \<in> set (entries (snd (enqueue cfg r s))) \<Longrightarrow> e \<in> set (entries s) \<or> e = (r, 0)"
proof (cases "total_bytes s + size_bytes r \<le> maxQueueBytes cfg")
  case True
  assume "e \<in> set (entries (snd (enqueue cfg r s)))"
  with True show ?thesis by (auto simp: enqueue_def entries_def)
next
  case False
  assume e: "e \<in> set (entries (snd (enqueue cfg r s)))"
  show ?thesis
  proof (cases "queueFullPolicy cfg = PolicyDropOldest \<and>
                inflight_bytes s + size_bytes r \<le> maxQueueBytes cfg")
    case True
    have "set (shed_oldest (maxQueueBytes cfg - inflight_bytes s - size_bytes r) (buffer s))
            \<subseteq> set (buffer s)"
      by (rule set_mono_suffix [OF shed_oldest_suffix])
    with True False e show ?thesis
      by (auto simp: enqueue_def entries_def)
  next
    case unchanged: False
    with False have "snd (enqueue cfg r s) = s"
      by (cases "queueFullPolicy cfg") (auto simp: enqueue_def)
    with e show ?thesis by simp
  qed
qed

lemma drain_entries: "entries (drain cfg s) = entries s"
proof -
  obtain taken left where t: "takeUpTo (maxBatchItems cfg) (maxBatchBytes cfg) (buffer s) = (taken, left)"
    by (cases "takeUpTo (maxBatchItems cfg) (maxBatchBytes cfg) (buffer s)")
  have app: "buffer s = taken @ left"
    using takeUpTo_append [of "maxBatchItems cfg" "maxBatchBytes cfg" "buffer s"] t by simp
  show ?thesis using t app by (cases taken) (simp_all add: drain_def entries_def)
qed

lemma others_subset: "set (concat (take i bs @ drop (Suc i) bs)) \<subseteq> set (concat bs)"
proof -
  have "set (take i bs) \<subseteq> set bs" by (rule set_take_subset)
  moreover have "set (drop (Suc i) bs) \<subseteq> set bs" by (rule set_drop_subset)
  ultimately show ?thesis by auto
qed

lemma outcome_entries_discard:
  assumes "outcome = Success \<or> (\<exists>reason. outcome = FatalFailure reason)"
  shows "set (entries (on_send_outcome cfg i outcome s)) \<subseteq> set (entries s)"
proof (cases "length (inflight s) \<le> i")
  case True
  then show ?thesis by (simp add: on_send_outcome_def)
next
  case False
  have "entries (on_send_outcome cfg i outcome s) =
        concat (take i (inflight s) @ drop (Suc i) (inflight s)) @ buffer s"
    using assms False by (auto simp: on_send_outcome_def Let_def entries_def)
  then show ?thesis
    using others_subset [of i "inflight s"] unfolding entries_def by (simp only: set_append) blast
qed

lemma outcome_entries_retry:
  assumes i: "i < length (inflight s)"
    and e: "e \<in> set (entries (on_send_outcome cfg i (RetryableFailure why) s))"
  shows "e \<in> set (concat (take i (inflight s) @ drop (Suc i) (inflight s))) \<union> set (buffer s) \<or>
         (\<exists>r k. (r, k) \<in> set (inflight s ! i) \<and> k < maxRetriesPerRecord cfg \<and> e = (r, Suc k))"
proof -
  define others where "others = take i (inflight s) @ drop (Suc i) (inflight s)"
  define room where "room = maxQueueBytes cfg - bytes (concat others)"
  have "entries (on_send_outcome cfg i (RetryableFailure why) s) =
        concat others @ requeue cfg room (inflight s ! i) (buffer s)"
    using i by (simp add: on_send_outcome_def Let_def entries_def others_def room_def)
  with e have "e \<in> set (concat others) \<or> e \<in> set (requeue cfg room (inflight s ! i) (buffer s))"
    by auto
  moreover have "set (requeue cfg room (inflight s ! i) (buffer s))
                   \<subseteq> set (retry_survivors cfg (inflight s ! i) @ buffer s)"
    unfolding requeue_def by (rule set_mono_suffix [OF shed_oldest_suffix])
  ultimately have "e \<in> set (concat others) \<or> e \<in> set (buffer s) \<or>
                   e \<in> set (retry_survivors cfg (inflight s ! i))"
    by auto
  moreover have "\<exists>r k. (r, k) \<in> set (inflight s ! i) \<and> k < maxRetriesPerRecord cfg \<and> e = (r, Suc k)"
    if "e \<in> set (retry_survivors cfg (inflight s ! i))"
    using that by (auto simp: retry_survivors_def)
  ultimately show ?thesis unfolding others_def by blast
qed

lemma batch_disjoint:
  assumes d: "distinct (resident s)" and i: "i < length (inflight s)"
    and r: "r \<in> fst ` set (inflight s ! i)"
  shows "r \<notin> fst ` (set (concat (take i (inflight s) @ drop (Suc i) (inflight s))) \<union> set (buffer s))"
proof -
  define others where "others = take i (inflight s) @ drop (Suc i) (inflight s)"
  define batch where "batch = inflight s ! i"
  have split: "mset (map fst (concat (inflight s))) =
               mset (map fst batch) + mset (map fst (concat others))"
    unfolding others_def batch_def using i by (rule concat_split)
  have "mset (map fst batch @ map fst (concat others) @ map fst (buffer s)) = mset (resident s)"
    using split by (simp add: resident_def)
  then have "mset (map fst batch @ map fst (concat others) @ map fst (buffer s)) \<subseteq># mset (resident s)"
    by simp
  then have dl: "distinct (map fst batch @ map fst (concat others) @ map fst (buffer s))"
    using d by (rule distinct_sub)
  have disj: "set (map fst batch) \<inter> set (map fst (concat others) @ map fst (buffer s)) = {}"
    using dl by (simp only: distinct_append)
  have "r \<in> set (map fst batch)" using r unfolding batch_def by simp
  with disj have "r \<notin> set (map fst (concat others) @ map fst (buffer s))" by blast
  then show ?thesis unfolding others_def by (simp add: image_Un)
qed

lemma batch_in_entries:
  assumes "i < length (inflight s)"
  shows "set (inflight s ! i) \<subseteq> set (entries s)"
proof -
  have "inflight s ! i \<in> set (inflight s)" using assms by (rule nth_mem)
  then show ?thesis by (auto simp: entries_def)
qed

lemma resident_enqueued:
  "set (resident (exec cfg evs init)) \<subseteq> set (enqueued evs)"
proof -
  have "mset (resident (exec cfg evs init)) \<subseteq># mset (enqueued evs)"
    using exec_resident [of cfg evs init] by (simp add: init_resident)
  then show ?thesis by (metis set_mset_mono set_mset_mset)
qed


lemma failed_send_resident:
  "failed_send s ev r \<Longrightarrow> r \<in> set (resident s)"
proof (cases ev)
  case (Complete i outcome)
  assume f: "failed_send s ev r"
  show ?thesis
  proof (cases outcome)
    case (RetryableFailure why)
    with f Complete have i: "i < length (inflight s)" and r: "r \<in> fst ` set (inflight s ! i)"
      by simp_all
    from r batch_in_entries [OF i] have "r \<in> fst ` set (entries s)" by blast
    then show ?thesis by (simp add: resident_entries)
  qed (use f Complete in simp_all)
qed simp_all

lemma retry_count_invariant:
  assumes "distinct (enqueued evs)"
  shows "(\<forall>r k. (r, k) \<in> set (entries (exec cfg evs init)) \<longrightarrow>
            retryable_failures cfg init evs r = k \<and> k \<le> maxRetriesPerRecord cfg) \<and>
         (\<forall>r. retryable_failures cfg init evs r \<le> maxRetriesPerRecord cfg + 1) \<and>
         (\<forall>r. r \<notin> set (enqueued evs) \<longrightarrow> retryable_failures cfg init evs r = 0)"
  using assms
proof (induction evs rule: rev_induct)
  case Nil
  then show ?case by (simp add: entries_def init_def)
next
  case (snoc ev evs)
  define t where "t = exec cfg evs init"
  have d: "distinct (enqueued evs)" using snoc.prems by (simp add: enqueued_append)
  note IH = snoc.IH [OF d, folded t_def]
  have ih1: "retryable_failures cfg init evs r = k \<and> k \<le> maxRetriesPerRecord cfg"
    if "(r, k) \<in> set (entries t)" for r k using IH that by blast
  have ih2: "retryable_failures cfg init evs r \<le> maxRetriesPerRecord cfg + 1" for r
    using IH by blast
  have ih3: "retryable_failures cfg init evs r = 0" if "r \<notin> set (enqueued evs)" for r
    using IH that by blast
  have dt: "distinct (resident t)" unfolding t_def using d by (rule exec_distinct)
  have sub: "set (resident t) \<subseteq> set (enqueued evs)" unfolding t_def by (rule resident_enqueued)
  define F where "F r = retryable_failures cfg init evs r + (if failed_send t ev r then 1 else 0)" for r
  have total: "retryable_failures cfg init (evs @ [ev]) r = F r" for r
    unfolding F_def t_def by (rule failures_snoc)
  have unique: "k = k'" if "(r, k) \<in> set (entries t)" "(r, k') \<in> set (entries t)" for r k k'
    using dt that unfolding resident_entries by (rule eq_key_imp_eq_value)
  have p3: "F r = 0"
    if "r \<notin> set (enqueued (evs @ [ev]))" for r
  proof -
    from that have r: "r \<notin> set (enqueued evs)" by (simp add: enqueued_append)
    with sub have "r \<notin> set (resident t)" by blast
    then have "\<not> failed_send t ev r" using failed_send_resident by blast
    with ih3 [OF r] show ?thesis by (simp add: F_def)
  qed
  have p2: "F r \<le> maxRetriesPerRecord cfg + 1" for r
  proof (cases "failed_send t ev r")
    case False
    with ih2 [of r] show ?thesis by (simp add: F_def)
  next
    case True
    then obtain i why where ev: "ev = Complete i (RetryableFailure why)"
      and i: "i < length (inflight t)" and r: "r \<in> fst ` set (inflight t ! i)"
      by (cases "(t, ev, r)" rule: failed_send.cases) simp_all
    from r obtain k where "(r, k) \<in> set (inflight t ! i)" by auto
    with batch_in_entries [OF i] have "(r, k) \<in> set (entries t)" by blast
    from ih1 [OF this] True show ?thesis by (simp add: F_def)
  qed
  have p1: "F r = k \<and> k \<le> maxRetriesPerRecord cfg"
    if rk: "(r, k) \<in> set (entries (step cfg t ev))" for r k
  proof (cases ev)
    case (Enqueue r')
    with rk have "(r, k) \<in> set (entries t) \<or> (r, k) = (r', 0)"
      using enqueue_entries [of "(r, k)" cfg r' t] by simp
    then show ?thesis
    proof
      assume "(r, k) \<in> set (entries t)"
      from ih1 [OF this] Enqueue show ?thesis by (simp add: F_def)
    next
      assume new: "(r, k) = (r', 0)"
      have "r' \<notin> set (enqueued evs)" using snoc.prems Enqueue by (simp add: enqueued_append)
      from ih3 [OF this] new Enqueue show ?thesis by (simp add: F_def)
    qed
  next
    case Drain
    with rk have "(r, k) \<in> set (entries t)" by (simp add: drain_entries)
    from ih1 [OF this] Drain show ?thesis by (simp add: F_def)
  next
    case (Complete i outcome)
    show ?thesis
    proof (cases "\<exists>why. outcome = RetryableFailure why")
      case False
      then have o: "outcome = Success \<or> (\<exists>reason. outcome = FatalFailure reason)"
        by (cases outcome) simp_all
      from rk Complete outcome_entries_discard [OF o, of cfg i t]
      have "(r, k) \<in> set (entries t)" by auto
      moreover have "\<not> failed_send t ev r" using Complete False by (cases outcome) simp_all
      ultimately show ?thesis using ih1 by (simp add: F_def)
    next
      case True
      then obtain why where why: "outcome = RetryableFailure why" by blast
      show ?thesis
      proof (cases "i < length (inflight t)")
        case False
        then have "step cfg t ev = t" using Complete by (simp add: on_send_outcome_def)
        moreover have "\<not> failed_send t ev r" using Complete why False by simp
        ultimately show ?thesis using rk ih1 by (simp add: F_def)
      next
        case i: True
        from rk Complete why
        have "(r, k) \<in> set (entries (on_send_outcome cfg i (RetryableFailure why) t))" by simp
        from outcome_entries_retry [OF i this]
        consider (kept) "(r, k) \<in> set (concat (take i (inflight t) @ drop (Suc i) (inflight t))) \<union> set (buffer t)"
          | (retried) k0 where "(r, k0) \<in> set (inflight t ! i)" "k0 < maxRetriesPerRecord cfg" "k = Suc k0"
          by auto
        then show ?thesis
        proof cases
          case kept
          then have elsewhere: "r \<in> fst ` (set (concat (take i (inflight t) @ drop (Suc i) (inflight t))) \<union> set (buffer t))"
            by force
          have "\<not> failed_send t ev r"
          proof
            assume "failed_send t ev r"
            then have "r \<in> fst ` set (inflight t ! i)" using Complete why by simp
            from batch_disjoint [OF dt i this] elsewhere show False by blast
          qed
          moreover have "(r, k) \<in> set (entries t)"
            using kept others_subset [of i "inflight t"] by (auto simp: entries_def)
          ultimately show ?thesis using ih1 by (simp add: F_def)
        next
          case retried
          have "(r, k0) \<in> set (entries t)" using retried(1) batch_in_entries [OF i] by blast
          from ih1 [OF this] have "retryable_failures cfg init evs r = k0" by simp
          moreover have "failed_send t ev r" using Complete why i retried(1) by force
          ultimately show ?thesis using retried by (simp add: F_def)
        qed
      qed
    qed
  qed
  show ?case
    unfolding total exec_snoc t_def [symmetric] using p1 p2 p3 by blast
qed


lemma shed_oldest_minimal:
  "\<exists>dropped. es = dropped @ shed_oldest room es \<and>
     (dropped \<noteq> [] \<longrightarrow> room < bytes (last dropped # shed_oldest room es))"
proof (induction es)
  case Nil
  then show ?case by simp
next
  case (Cons e es)
  show ?case
  proof (cases "bytes (e # es) \<le> room")
    case True
    then have "e # es = [] @ shed_oldest room (e # es)" by simp
    then show ?thesis by blast
  next
    case False
    from Cons.IH obtain dropped where d: "es = dropped @ shed_oldest room es"
      and l: "dropped \<noteq> [] \<longrightarrow> room < bytes (last dropped # shed_oldest room es)"
      by blast
    have s: "shed_oldest room (e # es) = shed_oldest room es" using False by simp
    have "e # es = (e # dropped) @ shed_oldest room (e # es)" using d s by simp
    moreover have "room < bytes (last (e # dropped) # shed_oldest room (e # es))"
    proof (cases "dropped = []")
      case True
      with d have "shed_oldest room es = es" by simp
      with True False s show ?thesis by simp
    next
      case nonempty: False
      with l s show ?thesis by simp
    qed
    ultimately show ?thesis by blast
  qed
qed

lemma exhausted_absent_later:
  assumes d: "distinct (enqueued (evs @ later))"
    and ex: "maxRetriesPerRecord cfg < retryable_failures cfg init evs r"
  shows "r \<notin> set (resident (exec cfg (evs @ later) init))"
proof
  assume "r \<in> set (resident (exec cfg (evs @ later) init))"
  then obtain k where "(r, k) \<in> set (entries (exec cfg (evs @ later) init))"
    by (auto simp: resident_entries)
  with retry_count_invariant [OF d, of cfg]
  have "retryable_failures cfg init (evs @ later) r = k" "k \<le> maxRetriesPerRecord cfg"
    by blast+
  moreover have "retryable_failures cfg init evs r \<le> retryable_failures cfg init (evs @ later) r"
    by (simp add: failures_append)
  ultimately show False using ex by simp
qed

text \<open>
  Claim C5. When the send of an in-flight Batch of a reachable state returns
  RetryableFailure, the Batch leaves the in-flight list and its records that have retries
  left return to the front of the buffer in their order, ahead of everything buffered,
  each with one more retry spent; a record of the Batch whose retries are spent does not
  return, and is in no later state unless a producer enqueues it again. When the enqueued
  records are pairwise different, the retry count the engine keeps for a record it holds
  is the number of RetryableFailure outcomes the record has received, and is at most
  \<open>maxRetriesPerRecord\<close>; no record ever receives more than \<open>maxRetriesPerRecord + 1\<close>
  such outcomes (the first send and the retries), and one that has received that many is
  in no later state of the engine. In any state the buffer after the failure is what
  \<open>requeue\<close> returns for the room the other in-flight Batches leave under the cap:
  the surviving records followed by the buffer, less the fewest oldest records whose
  removal makes the rest fit.
\<close>

theorem retryable_failure_requeues:
  "(let s = exec cfg evs init;
        batch = inflight s ! i;
        s' = on_send_outcome cfg i (RetryableFailure why) s
    in (i < length (inflight s) \<longrightarrow>
          buffer s' = retry_survivors cfg batch @ buffer s \<and>
          retry_survivors cfg batch =
            map (\<lambda>(r, k). (r, Suc k)) (filter (\<lambda>(r, k). k < maxRetriesPerRecord cfg) batch) \<and>
          inflight s' = take i (inflight s) @ drop (Suc i) (inflight s) \<and>
          (\<forall>r k. distinct (enqueued evs) \<and> (r, k) \<in> set batch \<and> maxRetriesPerRecord cfg \<le> k \<and>
                 r \<notin> set (enqueued later) \<longrightarrow>
                 r \<notin> set (resident (exec cfg later s')))) \<and>
       (distinct (enqueued evs) \<longrightarrow>
          (\<forall>r k. (r, k) \<in> set (entries s) \<longrightarrow>
                 k = retryable_failures cfg init evs r \<and> k \<le> maxRetriesPerRecord cfg) \<and>
          (\<forall>r. retryable_failures cfg init evs r \<le> maxRetriesPerRecord cfg + 1) \<and>
          (\<forall>r. maxRetriesPerRecord cfg < retryable_failures cfg init evs r \<and>
               distinct (enqueued (evs @ later)) \<longrightarrow>
               r \<notin> set (resident (exec cfg (evs @ later) init))))) \<and>
   (j < length (inflight t) \<longrightarrow>
      buffer (on_send_outcome cfg j (RetryableFailure why) t) =
        requeue cfg
          (maxQueueBytes cfg - bytes (concat (take j (inflight t) @ drop (Suc j) (inflight t))))
          (inflight t ! j) (buffer t)) \<and>
   (\<exists>dropped. retry_survivors cfg b @ buf = dropped @ requeue cfg room b buf \<and>
      bytes (requeue cfg room b buf) \<le> room \<and>
      (dropped \<noteq> [] \<longrightarrow> room < bytes (last dropped # requeue cfg room b buf)))"
proof -
  define s where "s = exec cfg evs init"
  define s' where "s' = on_send_outcome cfg i (RetryableFailure why) s"
  have inv: "total_bytes s \<le> maxQueueBytes cfg"
    unfolding s_def by (rule exec_total) (simp add: init_total)
  have gone: "r \<notin> set (resident (exec cfg later s'))"
    if i: "i < length (inflight s)" and d: "distinct (enqueued evs)"
      and rk: "(r, k) \<in> set (inflight s ! i)" and ex: "maxRetriesPerRecord cfg \<le> k"
      and fresh: "r \<notin> set (enqueued later)" for r k
  proof -
    have "distinct (resident s)" unfolding s_def using d by (rule exec_distinct)
    then have "r \<notin> set (resident s')"
      unfolding s'_def using inv i rk ex by (rule exhausted_not_resident)
    then show ?thesis using fresh by (rule absent_stays_absent)
  qed
  have front: "i < length (inflight s) \<longrightarrow>
          buffer s' = retry_survivors cfg (inflight s ! i) @ buffer s \<and>
          retry_survivors cfg (inflight s ! i) =
            map (\<lambda>(r, k). (r, Suc k))
              (filter (\<lambda>(r, k). k < maxRetriesPerRecord cfg) (inflight s ! i)) \<and>
          inflight s' = take i (inflight s) @ drop (Suc i) (inflight s) \<and>
          (\<forall>r k. distinct (enqueued evs) \<and> (r, k) \<in> set (inflight s ! i) \<and>
                 maxRetriesPerRecord cfg \<le> k \<and> r \<notin> set (enqueued later) \<longrightarrow>
                 r \<notin> set (resident (exec cfg later s')))"
    using outcome_retry_reachable [OF inv, of i why] gone
    unfolding s'_def [symmetric] by (simp add: retry_survivors_def) blast
  have counted: "distinct (enqueued evs) \<longrightarrow>
          (\<forall>r k. (r, k) \<in> set (entries s) \<longrightarrow>
                 k = retryable_failures cfg init evs r \<and> k \<le> maxRetriesPerRecord cfg) \<and>
          (\<forall>r. retryable_failures cfg init evs r \<le> maxRetriesPerRecord cfg + 1) \<and>
          (\<forall>r. maxRetriesPerRecord cfg < retryable_failures cfg init evs r \<and>
               distinct (enqueued (evs @ later)) \<longrightarrow>
               r \<notin> set (resident (exec cfg (evs @ later) init)))"
    using retry_count_invariant [of evs cfg] exhausted_absent_later [of evs later cfg]
    unfolding s_def by blast
  have anywhere: "j < length (inflight t) \<longrightarrow>
      buffer (on_send_outcome cfg j (RetryableFailure why) t) =
        requeue cfg
          (maxQueueBytes cfg - bytes (concat (take j (inflight t) @ drop (Suc j) (inflight t))))
          (inflight t ! j) (buffer t)"
    by (simp add: on_send_outcome_def Let_def)
  have exact: "\<exists>dropped. retry_survivors cfg b @ buf = dropped @ requeue cfg room b buf \<and>
      bytes (requeue cfg room b buf) \<le> room \<and>
      (dropped \<noteq> [] \<longrightarrow> room < bytes (last dropped # requeue cfg room b buf))"
    using shed_oldest_minimal [of "retry_survivors cfg b @ buf" room]
      shed_oldest_fits [of room "retry_survivors cfg b @ buf"]
    unfolding requeue_def by blast
  show ?thesis
    unfolding Let_def s_def [symmetric] s'_def [symmetric]
    using front counted anywhere exact by blast
qed

theorem retryable_failure_requeues_witness:
  "inflight (exec ((sample_config PolicyReject)\<lparr>maxRetriesPerRecord := 2\<rparr>)
      [Enqueue (sample_record 1 6), Drain, Complete 0 (RetryableFailure ''429''), Drain,
       Complete 0 (RetryableFailure ''429''), Drain] init) =
     [[(sample_record 1 6, 2)]] \<and>
   retryable_failures ((sample_config PolicyReject)\<lparr>maxRetriesPerRecord := 2\<rparr>) init
      [Enqueue (sample_record 1 6), Drain, Complete 0 (RetryableFailure ''429''), Drain,
       Complete 0 (RetryableFailure ''429''), Drain] (sample_record 1 6) = 2 \<and>
   buffer (exec ((sample_config PolicyReject)\<lparr>maxRetriesPerRecord := 2\<rparr>)
      [Enqueue (sample_record 1 6), Drain, Complete 0 (RetryableFailure ''429'')] init) =
     [(sample_record 1 6, 1)] \<and>
   buffer (on_send_outcome ((sample_config PolicyReject)\<lparr>maxRetriesPerRecord := 2\<rparr>) 0
      (RetryableFailure ''429'')
      (exec ((sample_config PolicyReject)\<lparr>maxRetriesPerRecord := 2\<rparr>)
        [Enqueue (sample_record 1 6), Drain, Complete 0 (RetryableFailure ''429''), Drain,
         Complete 0 (RetryableFailure ''429''), Drain] init)) = [] \<and>
   retryable_failures ((sample_config PolicyReject)\<lparr>maxRetriesPerRecord := 2\<rparr>) init
      [Enqueue (sample_record 1 6), Drain, Complete 0 (RetryableFailure ''429''), Drain,
       Complete 0 (RetryableFailure ''429''), Drain, Complete 0 (RetryableFailure ''429'')]
      (sample_record 1 6) = 3 \<and>
   resident (exec ((sample_config PolicyReject)\<lparr>maxRetriesPerRecord := 2\<rparr>)
      ([Enqueue (sample_record 1 6), Drain, Complete 0 (RetryableFailure ''429''), Drain,
        Complete 0 (RetryableFailure ''429''), Drain, Complete 0 (RetryableFailure ''429'')] @
       [Enqueue (sample_record 2 4), Drain]) init) = [sample_record 2 4] \<and>
   buffer (on_send_outcome (sample_config PolicyReject) 0 (RetryableFailure ''429'')
      \<lparr>buffer = [(sample_record 2 4, 0), (sample_record 3 5, 0)],
       inflight = [[(sample_record 1 6, 0)]], consecutiveFailures = 0, sink = []\<rparr>) =
     [(sample_record 2 4, 0), (sample_record 3 5, 0)] \<and>
   requeue (sample_config PolicyReject) 12 [(sample_record 1 6, 0)]
      [(sample_record 2 4, 0), (sample_record 3 5, 0)] =
     [(sample_record 2 4, 0), (sample_record 3 5, 0)]"
  using retryable_failure_requeues [where cfg = "(sample_config PolicyReject)\<lparr>maxRetriesPerRecord := 2\<rparr>"
      and evs = "[Enqueue (sample_record 1 6), Drain, Complete 0 (RetryableFailure ''429''), Drain,
         Complete 0 (RetryableFailure ''429''), Drain]"
      and i = 0 and why = "''429''" and later = "[Enqueue (sample_record 2 4), Drain]"
      and j = 0
      and t = "\<lparr>buffer = [(sample_record 2 4, 0), (sample_record 3 5, 0)],
         inflight = [[(sample_record 1 6, 0)]], consecutiveFailures = 0, sink = []\<rparr>"
      and room = 12 and b = "[(sample_record 1 6, 0)]"
      and buf = "[(sample_record 2 4, 0), (sample_record 3 5, 0)]"]
    retryable_failure_requeues [where cfg = "(sample_config PolicyReject)\<lparr>maxRetriesPerRecord := 2\<rparr>"
      and evs = "[Enqueue (sample_record 1 6), Drain, Complete 0 (RetryableFailure ''429''), Drain,
         Complete 0 (RetryableFailure ''429''), Drain, Complete 0 (RetryableFailure ''429'')]"
      and i = 0 and why = "''429''" and later = "[Enqueue (sample_record 2 4), Drain]"
      and j = 0 and t = init and room = 0 and b = "[]" and buf = "[]"]
  by (simp add: engine_defs)


end
